theory Spec2Isabelle
  imports Main
begin

section \<open>The resilient IOT client of \<^verbatim>\<open>client.py\<close>\<close>

text \<open>
  A shallow embedding of the class \<^verbatim>\<open>Client\<close>: the wire format, the raw send and the
  line reader over a non-blocking socket, the processing of inbound frames, the
  acknowledged writer with its retransmission, and the connection supervisor.

  Byte strings (\<^verbatim>\<open>bytes\<close>) are lists of bytes, \<^typ>\<open>string\<close>. A text (\<^verbatim>\<open>str\<close>) is kept as
  its UTF-8 encoding, the bytes the socket is given when the text is sent, so that a
  text is a \<^typ>\<open>string\<close> too; what the language does by characters (\<^verbatim>\<open>len\<close>, slicing) is
  written out on the encoding.
\<close>

subsection \<open>Strings and the wire format\<close>

definition nl :: char where
  "nl = CHR 0x0A"

text \<open>\<^verbatim>\<open>s.endswith('\n')\<close>\<close>

definition endswith_nl :: "string \<Rightarrow> bool" where
  "endswith_nl s = (s \<noteq> [] \<and> last s = nl)"

text \<open>
  A byte of the form \<open>10xxxxxx\<close> continues a character of more than one byte. \<^verbatim>\<open>len(s)\<close>
  of a text counts its characters: the byte that begins it and every later byte that is
  not a continuation. \<^verbatim>\<open>s[n:]\<close> of a text drops \<open>n\<close> characters, each with its
  continuation bytes.
\<close>

definition cont :: "char \<Rightarrow> bool" where
  "cont b = (128 \<le> (of_char b :: nat) \<and> (of_char b :: nat) < 192)"

definition nchars :: "string \<Rightarrow> nat" where
  "nchars s = (case s of [] \<Rightarrow> 0 | b # bs \<Rightarrow> Suc (length (filter (\<lambda>x. \<not> cont x) bs)))"

fun drop_chars :: "nat \<Rightarrow> string \<Rightarrow> string" where
  "drop_chars 0 s = s"
| "drop_chars (Suc n) [] = []"
| "drop_chars (Suc n) (b # bs) = drop_chars n (dropWhile cont bs)"

text \<open>A text of one-byte characters only, where characters and bytes are the same.\<close>

definition ascii_text :: "string \<Rightarrow> bool" where
  "ascii_text s = (\<forall>b\<in>set s. (of_char b :: nat) < 128)"

text \<open>
  \<^verbatim>\<open>b.decode()\<close>: the text that the bytes encode, \<open>None\<close> for the \<^verbatim>\<open>UnicodeError\<close> (a
  \<^verbatim>\<open>ValueError\<close>) of bytes that are not well-formed UTF-8. A byte that begins a character
  announces how many continuation bytes follow it, and exactly so many must follow.
\<close>

definition follow :: "char \<Rightarrow> nat option" where
  "follow b =
     (let k = of_char b :: nat in
      if k < 128 then Some 0
      else if k < 192 then None
      else if k < 224 then Some 1
      else if k < 240 then Some 2
      else if k < 248 then Some 3
      else None)"

fun utf8_check :: "nat \<Rightarrow> string \<Rightarrow> bool" where
  "utf8_check need [] = (need = 0)"
| "utf8_check need (b # bs) =
     (if need = 0 then (case follow b of None \<Rightarrow> False | Some k \<Rightarrow> utf8_check k bs)
      else cont b \<and> utf8_check (need - 1) bs)"

definition decode :: "string \<Rightarrow> string option" where
  "decode s = (if utf8_check 0 s then Some s else None)"

definition hexdigit :: "nat \<Rightarrow> char" where
  "hexdigit n = ''0123456789abcdef'' ! (n mod 16)"

text \<open>The lower-case hexadecimal digits of a number, most significant first.\<close>

fun hex_of :: "nat \<Rightarrow> string" where
  "hex_of n = (if n < 16 then [hexdigit n] else hex_of (n div 16) @ [hexdigit (n mod 16)])"

declare hex_of.simps [simp del]

text \<open>\<^verbatim>\<open>'{:02x}'.format(n)\<close>: the digits, padded with zeros on the left to a width of
  at least two.\<close>

definition fmt_02x :: "nat \<Rightarrow> string" where
  "fmt_02x n = (let s = hex_of n in replicate (2 - length s) CHR ''0'' @ s)"

text \<open>The value of one hexadecimal digit, of either case.\<close>

definition hexval :: "char \<Rightarrow> nat option" where
  "hexval ch =
     (let k = of_char ch :: nat in
      if 48 \<le> k \<and> k \<le> 57 then Some (k - 48)
      else if 97 \<le> k \<and> k \<le> 102 then Some (k - 87)
      else if 65 \<le> k \<and> k \<le> 70 then Some (k - 55)
      else None)"

text \<open>
  \<^verbatim>\<open>int(line[0:2], 16)\<close> on a frame header of two hexadecimal digits; \<open>None\<close> stands for
  the \<^verbatim>\<open>ValueError\<close> of a header that is not a number. (The platform's \<^verbatim>\<open>int\<close> also reads
  a few one-digit forms with a sign or a blank; no peer produces them, every statement
  below is about headers that decode here.)
\<close>

definition int16 :: "string \<Rightarrow> nat option" where
  "int16 s =
     (case s of
        [a, b] \<Rightarrow>
          (case hexval a of
             None \<Rightarrow> None
           | Some x \<Rightarrow> (case hexval b of None \<Rightarrow> None | Some y \<Rightarrow> Some (16 * x + y)))
      | _ \<Rightarrow> None)"

text \<open>
  Lines 78 and 81 of \<^verbatim>\<open>write\<close>: the format string is chosen by whether the payload
  already ends with the delimiter, then filled with the identifier and the payload.
\<close>

definition serialize :: "nat \<Rightarrow> string \<Rightarrow> string" where
  "serialize mid buf =
     (if endswith_nl buf then fmt_02x mid @ buf else fmt_02x mid @ buf @ [nl])"

text \<open>The line of \<^verbatim>\<open>_sendack\<close>: \<^verbatim>\<open>'{:02x}\n'.format(mid)\<close>.\<close>

definition ack_line :: "nat \<Rightarrow> string" where
  "ack_line mid = fmt_02x mid @ [nl]"


subsection \<open>The session state and its collaborators\<close>

datatype error = OSError | ValueError

text \<open>The constructor arguments that stay fixed: \<^verbatim>\<open>_my_id\<close> and \<^verbatim>\<open>_to\<close>.\<close>

record config =
  my_id :: string
  to :: int

definition tim_short :: "config \<Rightarrow> int" where
  "tim_short cf = to cf div 10"

text \<open>
  Modelled from the spec: the duplicate filter \<^verbatim>\<open>isnew\<close> of the package's
  \<^verbatim>\<open>__init__.py\<close>, which is not among the sources. The spec describes a bounded
  record of recently accepted identifiers of an implementation-defined size, a query
  that answers whether an identifier is new relative to it and records it, and a special
  call with the value \<open>-1\<close> that clears the entire record. The size is the field
  \<open>capacity\<close>; the special call answers nothing (\<open>None\<close>).
\<close>

record window =
  capacity :: nat
  seen :: "int list"

definition isnew :: "int \<Rightarrow> window \<Rightarrow> bool option \<times> window" where
  "isnew mid wd =
     (if mid = - 1 then (None, wd\<lparr>seen := []\<rparr>)
      else (Some (mid \<notin> set (seen wd)), wd\<lparr>seen := take (capacity wd) (mid # seen wd)\<rparr>))"

text \<open>
  Modelled from the spec: the identifier generator \<^verbatim>\<open>gmid\<close> of \<^verbatim>\<open>__init__.py\<close>, not among
  the sources: single-byte identifiers in increasing cyclic order, the reserved value 0
  skipped, wrapping after 255 back to 1. The state is the identifier handed out next.
\<close>

definition gmid_next :: "nat \<Rightarrow> nat \<times> nat" where
  "gmid_next g = (g, if 255 \<le> g then 1 else g + 1)"

text \<open>
  The mutable attributes of \<^verbatim>\<open>Client\<close> and the process-wide generator and filter.
  The two events (\<^verbatim>\<open>Event\<close>, a single slot with a payload) are options: \<open>None\<close> is a
  cleared event. The pending-ACK set (\<^verbatim>\<open>SetByte\<close>) is a set of identifiers and the
  write lock (\<^verbatim>\<open>Lock\<close>) a flag; \<open>led\<close> is \<open>None\<close> without an indicator and otherwise
  the indicator's state.
\<close>

record client =
  ok :: bool
  acks_pend :: "nat set"
  evread :: "string option"
  evfail :: "string option"
  locked :: bool
  connects :: nat
  led :: "bool option"
  getmid :: nat
  dupwin :: window

text \<open>One answer of \<^verbatim>\<open>sock.send(d)\<close>: it raises \<^verbatim>\<open>OSError\<close>, or takes the first \<open>n\<close> bytes.\<close>

datatype send_res = SendFails | Accepts nat

text \<open>What the client asks of its collaborators, in the order it asks.\<close>

datatype call =
  TaskSendack nat
  | TaskReader
  | TaskKeepalive
  | CancelReader
  | CancelKeepalive
  | Concb bool
  | BadWifi
  | BadServer
  | WdtFeed int
  | SockNew
  | SockClose
  | StaConnect
  | StaDisconnect

text \<open>
  Everything outside the coroutine under study. All fields but the last three are
  oracles, read from the front: the successive readings of \<^verbatim>\<open>utime.ticks_ms()\<close>, the
  successive results of \<^verbatim>\<open>sock.readline()\<close> (\<open>None\<close> when nothing has arrived, the empty
  string when the link is closed), the successive results of \<^verbatim>\<open>sock.send\<close>, the
  successive answers of \<^verbatim>\<open>s.isconnected()\<close> and of
  \<^verbatim>\<open>s.status() == network.STAT_CONNECTING\<close>, and for every suspension
  (\<^verbatim>\<open>await\<close>) what the other tasks did to the session meanwhile. The last three are
  logs of what the coroutine did: the chunks the socket took, the delays in ms it asked
  to sleep, and its calls to collaborators.
\<close>

record world =
  clock :: "int list"
  recvs :: "string option list"
  sends :: "send_res list"
  wifi :: "bool list"
  stat :: "bool list"
  sched :: "(client \<Rightarrow> client) list"
  wire :: "string list"
  slept :: "int list"
  calls :: "call list"

text \<open>
  A coroutine run against finite oracles returns, raises, or is cut off when an oracle
  it needs is empty: \<open>Pending\<close> carries the state at that moment, the coroutine having
  neither returned nor raised.
\<close>

datatype 'a outcome =
  Returned 'a client world
  | Raised error client world
  | Pending client world

text \<open>\<^verbatim>\<open>await asyncio.sleep_ms(ms)\<close>: the other tasks run.\<close>

definition suspend :: "int \<Rightarrow> client \<Rightarrow> world \<Rightarrow> (client \<times> world) option" where
  "suspend ms c w =
     (case sched w of
        [] \<Rightarrow> None
      | e # es \<Rightarrow> Some (e c, w\<lparr>sched := es, slept := slept w @ [ms]\<rparr>))"

definition ticks_ms :: "world \<Rightarrow> (int \<times> world) option" where
  "ticks_ms w = (case clock w of [] \<Rightarrow> None | t # ts \<Rightarrow> Some (t, w\<lparr>clock := ts\<rparr>))"

text \<open>\<^verbatim>\<open>utime.ticks_diff\<close>, on tick values that have not wrapped around.\<close>

definition ticks_diff :: "int \<Rightarrow> int \<Rightarrow> int" where
  "ticks_diff a b = a - b"

subsection \<open>The raw send\<close>

text \<open>
  The loop of \<^verbatim>\<open>_send\<close>, with its local variables \<^verbatim>\<open>d\<close>, \<^verbatim>\<open>ns\<close>, \<^verbatim>\<open>nts\<close> and \<^verbatim>\<open>start\<close>. The
  callers pass a text: \<^verbatim>\<open>nts = len(d)\<close> counts characters and \<^verbatim>\<open>d = d[n:]\<close> drops
  characters, while \<^verbatim>\<open>sock.send(d)\<close> takes bytes of the encoding and answers how many
  bytes it took.
\<close>

function send_loop ::
  "config \<Rightarrow> string \<Rightarrow> nat \<Rightarrow> nat \<Rightarrow> int \<Rightarrow> client \<Rightarrow> world \<Rightarrow> unit outcome" where
  "send_loop cf d ns nts start c w =
     (if ns < nts then
        (case sends w of
           [] \<Rightarrow> Pending c w
         | SendFails # rs \<Rightarrow> Raised OSError c (w\<lparr>sends := rs\<rparr>)
         | Accepts n # rs \<Rightarrow>
             (let w1 = w\<lparr>sends := rs, wire := wire w @ [take n d]\<rparr> in
              case (if ns + n < nts then suspend 20 c w1 else Some (c, w1)) of
                None \<Rightarrow> Pending c w1
              | Some (c2, w2) \<Rightarrow>
                  (case ticks_ms w2 of
                     None \<Rightarrow> Pending c2 w2
                   | Some (t, w3) \<Rightarrow>
                       if ticks_diff t start > to cf then Raised OSError c2 w3
                       else send_loop cf (if ns + n < nts then drop_chars n d else d)
                              (ns + n) nts start c2 w3)))
      else Returned () c w)"
  by pat_completeness auto
termination
  by (relation "measure (\<lambda>(cf, d, ns, nts, start, c, w). length (sends w))")
    (auto simp: suspend_def ticks_ms_def split: list.splits if_splits)

declare send_loop.simps [simp del]

definition priv_send :: "config \<Rightarrow> string \<Rightarrow> client \<Rightarrow> world \<Rightarrow> unit outcome" where
  "priv_send cf d c w =
     (case ticks_ms w of
        None \<Rightarrow> Pending c w
      | Some (start, w1) \<Rightarrow> send_loop cf d 0 (nchars d) start c w1)"

lemma nchars_Nil [simp]: "nchars [] = 0"
  by (simp add: nchars_def)

lemma nchars_pos [simp]: "0 < nchars s \<longleftrightarrow> s \<noteq> []"
  by (cases s) (simp_all add: nchars_def)

lemma nchars_le: "nchars s \<le> length s"
proof (cases s)
  case Nil
  then show ?thesis by simp
next
  case (Cons b bs)
  have "length (filter (\<lambda>x. \<not> cont x) bs) \<le> length bs" by (rule length_filter_le)
  with Cons show ?thesis by (simp add: nchars_def)
qed





lemma ascii_text_decode: "ascii_text s \<Longrightarrow> decode s = Some s"
proof -
  have "ascii_text s \<Longrightarrow> utf8_check 0 s"
    by (induction s) (simp_all add: ascii_text_def follow_def)
  then show "ascii_text s \<Longrightarrow> decode s = Some s" by (simp add: decode_def)
qed


subsection \<open>Waiting\<close>

text \<open>
  The polling loops \<^verbatim>\<open>while cond: await asyncio.sleep_ms(ms)\<close>, as in
  \<^verbatim>\<open>while not self._ok: await asyncio.sleep_ms(tshort)\<close>.
\<close>

function wait_while :: "(client \<Rightarrow> bool) \<Rightarrow> int \<Rightarrow> client \<Rightarrow> world \<Rightarrow> unit outcome" where
  "wait_while p ms c w =
     (if p c then
        (case suspend ms c w of
           None \<Rightarrow> Pending c w
         | Some (c1, w1) \<Rightarrow> wait_while p ms c1 w1)
      else Returned () c w)"
  by pat_completeness auto
termination
  by (relation "measure (\<lambda>(p, ms, c, w). length (sched w))")
    (auto simp: suspend_def split: list.splits)

declare wait_while.simps [simp del]

text \<open>
  Modelled from the spec: the mutual-exclusion lock \<^verbatim>\<open>Lock\<close> of \<^verbatim>\<open>__init__.py\<close>, not among
  the sources, which serializes the writes onto the socket; its acquisition is a
  suspension point while another task holds it. \<^verbatim>\<open>Lock(100)\<close> polls every 100 ms.
\<close>

definition acquire :: "client \<Rightarrow> world \<Rightarrow> unit outcome" where
  "acquire c w =
     (case wait_while locked 100 c w of
        Returned u c1 w1 \<Rightarrow> Returned () (c1\<lparr>locked := True\<rparr>) w1
      | Raised e c1 w1 \<Rightarrow> Raised e c1 w1
      | Pending c1 w1 \<Rightarrow> Pending c1 w1)"

definition release :: "client \<Rightarrow> client" where
  "release c = c\<lparr>locked := False\<rparr>"

text \<open>\<^verbatim>\<open>async with self._s_lock: await self._send(line)\<close>; the lock is released on
  return and on an exception alike.\<close>

definition locked_send :: "config \<Rightarrow> string \<Rightarrow> client \<Rightarrow> world \<Rightarrow> unit outcome" where
  "locked_send cf line c w =
     (case acquire c w of
        Returned u c1 w1 \<Rightarrow>
          (case priv_send cf line c1 w1 of
             Returned u c2 w2 \<Rightarrow> Returned () (release c2) w2
           | Raised e c2 w2 \<Rightarrow> Raised e (release c2) w2
           | Pending c2 w2 \<Rightarrow> Pending c2 w2)
      | Raised e c1 w1 \<Rightarrow> Raised e c1 w1
      | Pending c1 w1 \<Rightarrow> Pending c1 w1)"

definition sendack :: "config \<Rightarrow> nat \<Rightarrow> client \<Rightarrow> world \<Rightarrow> unit outcome" where
  "sendack cf mid c w = locked_send cf (ack_line mid) c w"

subsection \<open>The line reader\<close>

text \<open>
  The head of the loop of \<^verbatim>\<open>_readline\<close>: a buffer that ends with the delimiter marks the
  session healthy, and is returned, or is a keepalive. \<open>Inl\<close> leaves the loop, \<open>Inr\<close>
  goes on with the new \<^verbatim>\<open>line\<close> and \<^verbatim>\<open>start\<close>.
\<close>

definition readline_top ::
  "string \<Rightarrow> int \<Rightarrow> client \<Rightarrow> world \<Rightarrow> string outcome + (string \<times> int \<times> client \<times> world)" where
  "readline_top line start c w =
     (if endswith_nl line then
        (let c1 = c\<lparr>ok := True\<rparr> in
         if length line > 1 then Inl (Returned line c1 w)
         else
           (let w1 = w\<lparr>calls := calls w @ [WdtFeed 5]\<rparr> in
            case ticks_ms w1 of
              None \<Rightarrow> Inl (Pending c1 w1)
            | Some (t, w2) \<Rightarrow> Inr ([], t, c1\<lparr>led := map_option Not (led c1)\<rparr>, w2)))
      else Inr (line, start, c, w))"

text \<open>The socket read of one iteration and what it does to the buffer.\<close>

definition readline_recv ::
  "string \<Rightarrow> client \<Rightarrow> world \<Rightarrow> string outcome + (string \<times> client \<times> world)" where
  "readline_recv line c w =
     (case recvs w of
        [] \<Rightarrow> Inl (Pending c w)
      | d # ds \<Rightarrow>
          (let w1 = w\<lparr>recvs := ds\<rparr> in
           case d of
             None \<Rightarrow>
               (case suspend 100 c w1 of
                  None \<Rightarrow> Inl (Pending c w1)
                | Some (c2, w2) \<Rightarrow> Inr (line, c2, w2))
           | Some x \<Rightarrow>
               if x = [] then Inl (Raised OSError c w1)
               else Inr (if line = [] then x else line @ x, c, w1)))"

function readline_loop ::
  "config \<Rightarrow> string \<Rightarrow> int \<Rightarrow> client \<Rightarrow> world \<Rightarrow> string outcome" where
  "readline_loop cf line start c w =
     (case readline_top line start c w of
        Inl out \<Rightarrow> out
      | Inr (line1, start1, c1, w1) \<Rightarrow>
          (case readline_recv line1 c1 w1 of
             Inl out \<Rightarrow> out
           | Inr (line2, c2, w2) \<Rightarrow>
               (case ticks_ms w2 of
                  None \<Rightarrow> Pending c2 w2
                | Some (t, w3) \<Rightarrow>
                    if ticks_diff t start1 > to cf then Raised OSError c2 w3
                    else readline_loop cf line2 start1 c2 w3)))"
  by pat_completeness auto
termination
  by (relation "measure (\<lambda>(cf, line, start, c, w). length (recvs w))")
    (auto simp: readline_top_def readline_recv_def suspend_def ticks_ms_def Let_def
      split: list.splits if_splits option.splits)

declare readline_loop.simps [simp del]

definition priv_readline :: "config \<Rightarrow> client \<Rightarrow> world \<Rightarrow> string outcome" where
  "priv_readline cf c w =
     (case ticks_ms w of
        None \<Rightarrow> Pending c w
      | Some (start, w1) \<Rightarrow> readline_loop cf [] start c w1)"

lemma ticks_ms_fields:
  "ticks_ms w = Some (t, w1) \<Longrightarrow>
     recvs w1 = recvs w \<and> sends w1 = sends w \<and> sched w1 = sched w \<and> wire w1 = wire w
     \<and> slept w1 = slept w \<and> calls w1 = calls w \<and> wifi w1 = wifi w \<and> stat w1 = stat w
     \<and> clock w = t # clock w1"
  by (auto simp: ticks_ms_def split: list.splits)

lemma suspend_fields:
  "suspend ms c w = Some (c1, w1) \<Longrightarrow>
     recvs w1 = recvs w \<and> sends w1 = sends w \<and> clock w1 = clock w \<and> wire w1 = wire w
     \<and> calls w1 = calls w \<and> wifi w1 = wifi w \<and> stat w1 = stat w
     \<and> slept w1 = slept w @ [ms]
     \<and> (\<exists>e. sched w = e # sched w1 \<and> c1 = e c)"
  by (auto simp: suspend_def split: list.splits)

lemma readline_top_Inr:
  "readline_top line start c w = Inr (l1, s1, c1, w1) \<Longrightarrow> recvs w1 = recvs w"
  by (auto simp: readline_top_def Let_def split: if_splits option.splits dest!: ticks_ms_fields)

lemma readline_top_Returned:
  "readline_top line start c w = Inl (Returned l c1 w1) \<Longrightarrow> w1 = w \<and> line \<noteq> []"
  by (auto simp: readline_top_def Let_def endswith_nl_def split: if_splits option.splits)

lemma readline_recv_Inr:
  "readline_recv l c w = Inr (l2, c2, w2) \<Longrightarrow> length (recvs w2) < length (recvs w)"
  by (auto simp: readline_recv_def Let_def split: list.splits if_splits option.splits
      dest!: suspend_fields)

lemma readline_recv_Inl:
  "readline_recv l c w \<noteq> Inl (Returned x c2 w2)"
  by (auto simp: readline_recv_def Let_def split: list.splits if_splits option.splits)

lemma readline_loop_recvs:
  "readline_loop cf line start c w = Returned l c1 w1 \<Longrightarrow>
     length (recvs w1) \<le> length (recvs w) \<and> (line = [] \<longrightarrow> length (recvs w1) < length (recvs w))"
proof (induction cf line start c w rule: readline_loop.induct)
  case (1 cf line start c w)
  show ?case
  proof (cases "readline_top line start c w")
    case (Inl out)
    with "1.prems" have "out = Returned l c1 w1"
      by (subst (asm) readline_loop.simps) simp
    with Inl show ?thesis
      by (auto dest: readline_top_Returned)
  next
    case (Inr x)
    obtain la sa ca wa where x: "x = (la, sa, ca, wa)"
      by (cases x) auto
    note top = Inr [unfolded x]
    show ?thesis
    proof (cases "readline_recv la ca wa")
      case (Inl out)
      with "1.prems" top have "out = Returned l c1 w1"
        by (subst (asm) readline_loop.simps) simp
      with Inl show ?thesis
        by (simp add: readline_recv_Inl)
    next
      case (Inr y)
      obtain lb cb wb where y: "y = (lb, cb, wb)"
        by (cases y) auto
      note rcv = Inr [unfolded y]
      from "1.prems" top rcv obtain t wc where
        tk: "ticks_ms wb = Some (t, wc)" and
        nto: "\<not> ticks_diff t sa > to cf" and
        rec: "readline_loop cf lb sa cb wc = Returned l c1 w1"
        by (subst (asm) readline_loop.simps) (auto split: option.splits if_splits)
      have "length (recvs w1) \<le> length (recvs wc)"
        using "1.IH" [OF top refl refl refl rcv refl refl tk refl nto rec] by simp
      moreover have "recvs wc = recvs wb"
        using tk by (simp add: ticks_ms_fields)
      moreover have "length (recvs wb) < length (recvs wa)"
        using rcv by (rule readline_recv_Inr)
      moreover have "recvs wa = recvs w"
        using top by (rule readline_top_Inr)
      ultimately show ?thesis by simp
    qed
  qed
qed

lemma priv_readline_recvs:
  "priv_readline cf c w = Returned l c1 w1 \<Longrightarrow> length (recvs w1) < length (recvs w)"
  by (auto simp: priv_readline_def split: option.splits
      dest!: ticks_ms_fields readline_loop_recvs)

subsection \<open>The frame reader\<close>

text \<open>
  The body of the loop of \<^verbatim>\<open>_reader\<close> for one line that \<^verbatim>\<open>_readline\<close> returned; \<open>c0\<close> is
  the snapshot of \<^verbatim>\<open>connects\<close> taken when the reader started. No suspension point lies
  in it. \<open>Inl\<close> is an exception that leaves the loop, with the state it leaves behind:
  the \<^verbatim>\<open>ValueError\<close> of a header that is not a number, and that of a payload that
  \<^verbatim>\<open>line[2:].decode()\<close> cannot decode, which is raised once the ACK task has been created
  and the duplicate filter has recorded the identifier.
\<close>

definition reader_frame ::
  "nat \<Rightarrow> string \<Rightarrow> client \<Rightarrow> world \<Rightarrow> error \<times> client \<times> world + client \<times> world" where
  "reader_frame c0 line c w =
     (case int16 (take 2 line) of
        None \<Rightarrow> Inl (ValueError, c, w)
      | Some mid \<Rightarrow>
          if length line = 3 then Inr (c\<lparr>acks_pend := acks_pend c - {mid}\<rparr>, w)
          else if evread c \<noteq> None then Inr (c, w)
          else
            (let w1 = w\<lparr>calls := calls w @ [TaskSendack mid]\<rparr>;
                 c1 = (if mid = 0 then c\<lparr>dupwin := snd (isnew (- 1) (dupwin c))\<rparr> else c);
                 r = isnew (int mid) (dupwin c1);
                 c2 = c1\<lparr>dupwin := snd r\<rparr>
             in if fst r = Some True \<and> decode (drop 2 line) = None then Inl (ValueError, c2, w1)
                else
                  (let c3 = (if fst r = Some True then c2\<lparr>evread := decode (drop 2 line)\<rparr>
                             else c2);
                       c4 = (if c0 = connects c3 then c3\<lparr>connects := connects c3 + 1\<rparr> else c3)
                   in Inr (c4, w1))))"

lemma reader_frame_recvs:
  "reader_frame c0 line c w = Inr (c1, w1) \<Longrightarrow> recvs w1 = recvs w"
  by (auto simp: reader_frame_def Let_def split: option.splits if_splits)

text \<open>
  The loop of \<^verbatim>\<open>_reader\<close> inside its \<^verbatim>\<open>try\<close>: an \<^verbatim>\<open>OSError\<close> sets the link-failure
  event and ends the task, any other exception leaves it.
\<close>

function reader_loop :: "config \<Rightarrow> nat \<Rightarrow> client \<Rightarrow> world \<Rightarrow> unit outcome" where
  "reader_loop cf c0 c w =
     (case priv_readline cf c w of
        Pending c1 w1 \<Rightarrow> Pending c1 w1
      | Raised e c1 w1 \<Rightarrow>
          if e = OSError then Returned () (c1\<lparr>evfail := Some ''reader fail''\<rparr>) w1
          else Raised e c1 w1
      | Returned line c1 w1 \<Rightarrow>
          (case reader_frame c0 line c1 w1 of
             Inl (e, c2, w2) \<Rightarrow>
               if e = OSError then Returned () (c2\<lparr>evfail := Some ''reader fail''\<rparr>) w2
               else Raised e c2 w2
           | Inr (c2, w2) \<Rightarrow> reader_loop cf c0 c2 w2))"
  by pat_completeness auto
termination
  by (relation "measure (\<lambda>(cf, c0, c, w). length (recvs w))")
    (auto dest!: priv_readline_recvs reader_frame_recvs)

declare reader_loop.simps [simp del]

definition reader :: "config \<Rightarrow> client \<Rightarrow> world \<Rightarrow> unit outcome" where
  "reader cf c w = reader_loop cf (connects c) (c\<lparr>evread := None\<rparr>) w"

text \<open>
  \<^verbatim>\<open>readline\<close>: \<^verbatim>\<open>await self._evread\<close> polls the event until it is set; the payload is
  taken and the event cleared.
\<close>

function await_evread :: "client \<Rightarrow> world \<Rightarrow> string outcome" where
  "await_evread c w =
     (case evread c of
        Some d \<Rightarrow> Returned d c w
      | None \<Rightarrow>
          (case suspend 0 c w of
             None \<Rightarrow> Pending c w
           | Some (c1, w1) \<Rightarrow> await_evread c1 w1))"
  by pat_completeness auto
termination
  by (relation "measure (\<lambda>(c, w). length (sched w))")
    (auto simp: suspend_def split: list.splits)

declare await_evread.simps [simp del]

definition readline :: "client \<Rightarrow> world \<Rightarrow> string outcome" where
  "readline c w =
     (case await_evread c w of
        Returned d c1 w1 \<Rightarrow> Returned d (c1\<lparr>evread := None\<rparr>) w1
      | Raised e c1 w1 \<Rightarrow> Raised e c1 w1
      | Pending c1 w1 \<Rightarrow> Pending c1 w1)"

subsection \<open>The acknowledged writer\<close>

text \<open>The state an outcome carries.\<close>

fun client_of :: "'a outcome \<Rightarrow> client" where
  "client_of (Returned x c w) = c"
| "client_of (Raised e c w) = c"
| "client_of (Pending c w) = c"

fun world_of :: "'a outcome \<Rightarrow> world" where
  "world_of (Returned x c w) = w"
| "world_of (Raised e c w) = w"
| "world_of (Pending c w) = w"

text \<open>
  A property of the session that the writer's own assignments, to the lock and to the
  link-failure event, cannot change; and a schedule every step of which keeps it.
\<close>

definition indifferent :: "(client \<Rightarrow> bool) \<Rightarrow> bool" where
  "indifferent P = (\<forall>c b x. P (c\<lparr>locked := b\<rparr>) = P c \<and> P (c\<lparr>evfail := x\<rparr>) = P c)"

definition keeps :: "(client \<Rightarrow> bool) \<Rightarrow> world \<Rightarrow> bool" where
  "keeps P w = (\<forall>e\<in>set (sched w). \<forall>c. P c \<longrightarrow> P (e c))"

text \<open>
  Between two states of one coroutine the schedule only shrinks, where no suspension
  lies between them the health flag is the same, and an indifferent property that the
  schedule keeps holds after when it held before.
\<close>

definition quiet :: "client \<Rightarrow> world \<Rightarrow> client \<Rightarrow> world \<Rightarrow> bool" where
  "quiet c w c1 w1 =
     (length (sched w1) \<le> length (sched w)
      \<and> (length (sched w1) = length (sched w) \<longrightarrow> ok c1 = ok c)
      \<and> (\<forall>P. indifferent P \<and> keeps P w \<and> P c \<longrightarrow> keeps P w1 \<and> P c1))"

lemma quiet_sched:
  "quiet c w c1 w1 \<Longrightarrow>
     length (sched w1) \<le> length (sched w)
     \<and> (length (sched w1) = length (sched w) \<longrightarrow> ok c1 = ok c)"
  by (simp add: quiet_def)

lemma quiet_keeps:
  "quiet c w c1 w1 \<Longrightarrow> indifferent P \<Longrightarrow> keeps P w \<Longrightarrow> P c \<Longrightarrow> keeps P w1 \<and> P c1"
  unfolding quiet_def by blast

lemma quietI:
  assumes "length (sched w1) \<le> length (sched w)"
    and "length (sched w1) = length (sched w) \<Longrightarrow> ok c1 = ok c"
    and "\<And>P. indifferent P \<Longrightarrow> keeps P w \<Longrightarrow> P c \<Longrightarrow> keeps P w1 \<and> P c1"
  shows "quiet c w c1 w1"
  unfolding quiet_def using assms by blast

lemma quiet_refl [simp]: "quiet c w c w"
  by (rule quietI) simp_all

lemma quiet_same: "sched w1 = sched w \<Longrightarrow> quiet c w c w1"
  by (rule quietI) (simp_all add: keeps_def)

lemma quiet_trans:
  assumes "quiet c w c1 w1" and "quiet c1 w1 c2 w2"
  shows "quiet c w c2 w2"
proof (rule quietI)
  from quiet_sched [OF assms(1)] quiet_sched [OF assms(2)]
  show "length (sched w2) \<le> length (sched w)" by simp
  from quiet_sched [OF assms(1)] quiet_sched [OF assms(2)]
  show "length (sched w2) = length (sched w) \<Longrightarrow> ok c2 = ok c" by simp
next
  fix P
  assume "indifferent P" and "keeps P w" and "P c"
  from quiet_keeps [OF assms(1) this] have "keeps P w1" "P c1" by simp_all
  from quiet_keeps [OF assms(2) \<open>indifferent P\<close> this] show "keeps P w2 \<and> P c2" .
qed

lemma quiet_locked:
  assumes "quiet c w c1 w1"
  shows "quiet c w (c1\<lparr>locked := b\<rparr>) w1"
proof (rule quietI)
  from quiet_sched [OF assms] show "length (sched w1) \<le> length (sched w)"
    and "length (sched w1) = length (sched w) \<Longrightarrow> ok (c1\<lparr>locked := b\<rparr>) = ok c" by simp_all
next
  fix P
  assume p: "indifferent P" "keeps P w" "P c"
  from quiet_keeps [OF assms p] p(1) show "keeps P w1 \<and> P (c1\<lparr>locked := b\<rparr>)"
    by (simp add: indifferent_def)
qed

lemma quiet_evfail:
  assumes "quiet c w c1 w1"
  shows "quiet c w (c1\<lparr>evfail := x\<rparr>) w1"
proof (rule quietI)
  from quiet_sched [OF assms] show "length (sched w1) \<le> length (sched w)"
    and "length (sched w1) = length (sched w) \<Longrightarrow> ok (c1\<lparr>evfail := x\<rparr>) = ok c" by simp_all
next
  fix P
  assume p: "indifferent P" "keeps P w" "P c"
  from quiet_keeps [OF assms p] p(1) show "keeps P w1 \<and> P (c1\<lparr>evfail := x\<rparr>)"
    by (simp add: indifferent_def)
qed

lemma quiet_suspend: "suspend ms c w = Some (c1, w1) \<Longrightarrow> quiet c w c1 w1"
  by (rule quietI) (auto simp: keeps_def suspend_def split: list.splits)

lemma quiet_ticks: "ticks_ms w = Some (t, w1) \<Longrightarrow> quiet c w c w1"
  by (rule quietI) (auto simp: keeps_def ticks_ms_def split: list.splits)

lemma wait_while_quiet:
  "quiet c w (client_of (wait_while p ms c w)) (world_of (wait_while p ms c w))"
proof (induction p ms c w rule: wait_while.induct)
  case (1 p ms c w)
  show ?case
  proof (cases "p c")
    case False
    then show ?thesis by (subst (1 2) wait_while.simps) simp
  next
    case True
    show ?thesis
    proof (cases "suspend ms c w")
      case None
      with True show ?thesis by (subst (1 2) wait_while.simps) simp
    next
      case (Some a)
      obtain c1 w1 where a: "a = (c1, w1)" by (cases a) auto
      have "quiet c1 w1 (client_of (wait_while p ms c1 w1)) (world_of (wait_while p ms c1 w1))"
        using "1.IH" [OF True Some [unfolded a] refl] .
      with quiet_suspend [OF Some [unfolded a]]
      have "quiet c w (client_of (wait_while p ms c1 w1)) (world_of (wait_while p ms c1 w1))"
        by (rule quiet_trans)
      with True Some a show ?thesis by (subst (1 2) wait_while.simps) simp
    qed
  qed
qed

lemma wait_while_exit:
  "wait_while p ms c w = Returned u c1 w1 \<Longrightarrow> \<not> p c1"
proof (induction p ms c w rule: wait_while.induct)
  case (1 p ms c w)
  show ?case
  proof (cases "p c")
    case False
    with "1.prems" show ?thesis by (subst (asm) wait_while.simps) simp
  next
    case True
    with "1.prems" obtain c2 w2 where
      s: "suspend ms c w = Some (c2, w2)" and r: "wait_while p ms c2 w2 = Returned u c1 w1"
      by (subst (asm) wait_while.simps) (auto split: option.splits)
    show ?thesis using "1.IH" [OF True s refl r] .
  qed
qed

lemma wait_while_not_Raised: "wait_while p ms c w \<noteq> Raised e c1 w1"
proof (induction p ms c w rule: wait_while.induct)
  case (1 p ms c w)
  show ?case
  proof (cases "p c")
    case False
    then show ?thesis by (subst wait_while.simps) simp
  next
    case True
    show ?thesis
    proof (cases "suspend ms c w")
      case None
      with True show ?thesis by (subst wait_while.simps) simp
    next
      case (Some a)
      obtain c2 w2 where a: "a = (c2, w2)" by (cases a) auto
      from "1.IH" [OF True Some [unfolded a] refl] True Some a show ?thesis
        by (subst wait_while.simps) simp
    qed
  qed
qed

lemma send_loop_quiet:
  "quiet c w (client_of (send_loop cf d ns nts start c w))
     (world_of (send_loop cf d ns nts start c w))"
proof (induction cf d ns nts start c w rule: send_loop.induct)
  case (1 cf d ns nts start c w)
  show ?case
  proof (cases "ns < nts")
    case False
    then show ?thesis by (subst (1 2) send_loop.simps) simp
  next
    case lt: True
    show ?thesis
    proof (cases "sends w")
      case Nil
      with lt show ?thesis by (subst (1 2) send_loop.simps) simp
    next
      case (Cons r rs)
      show ?thesis
      proof (cases r)
        case SendFails
        with lt Cons show ?thesis
          by (subst (1 2) send_loop.simps) (simp add: quiet_same)
      next
        case (Accepts n)
        define w1 where "w1 = w\<lparr>sends := rs, wire := wire w @ [take n d]\<rparr>"
        have q1: "quiet c w c w1" by (rule quiet_same) (simp add: w1_def)
        show ?thesis
        proof (cases "if ns + n < nts then suspend 20 c w1 else Some (c, w1)")
          case None
          with lt Cons Accepts q1 show ?thesis
            by (subst (1 2) send_loop.simps) (simp add: w1_def [symmetric])
        next
          case (Some a)
          obtain c2 w2 where a: "a = (c2, w2)" by (cases a) auto
          have q2: "quiet c w1 c2 w2"
            using Some a by (auto split: if_splits dest: quiet_suspend)
          show ?thesis
          proof (cases "ticks_ms w2")
            case None
            with lt Cons Accepts Some a quiet_trans [OF q1 q2] show ?thesis
              by (subst (1 2) send_loop.simps) (simp add: w1_def [symmetric])
          next
            case tk: (Some b)
            obtain t w3 where b: "b = (t, w3)" by (cases b) auto
            have q3: "quiet c w c2 w3"
              using quiet_trans [OF quiet_trans [OF q1 q2] quiet_ticks [OF tk [unfolded b]]] .
            show ?thesis
            proof (cases "ticks_diff t start > to cf")
              case True
              with lt Cons Accepts Some a tk b q3 show ?thesis
                by (subst (1 2) send_loop.simps) (simp add: w1_def [symmetric])
            next
              case False
              have "quiet c2 w3
                 (client_of (send_loop cf (if ns + n < nts then drop_chars n d else d) (ns + n) nts start c2 w3))
                 (world_of (send_loop cf (if ns + n < nts then drop_chars n d else d) (ns + n) nts start c2 w3))"
                using "1.IH" [OF lt Cons Accepts w1_def Some [unfolded a] refl tk [unfolded b] refl False] .
              with q3 have "quiet c w
                 (client_of (send_loop cf (if ns + n < nts then drop_chars n d else d) (ns + n) nts start c2 w3))
                 (world_of (send_loop cf (if ns + n < nts then drop_chars n d else d) (ns + n) nts start c2 w3))"
                by (rule quiet_trans)
              with lt Cons Accepts Some a tk b False show ?thesis
                by (subst (1 2) send_loop.simps) (simp add: w1_def [symmetric])
            qed
          qed
        qed
      qed
    qed
  qed
qed

lemma priv_send_quiet:
  "quiet c w (client_of (priv_send cf d c w)) (world_of (priv_send cf d c w))"
proof (cases "ticks_ms w")
  case None
  then show ?thesis by (simp add: priv_send_def)
next
  case (Some a)
  obtain t w1 where a: "a = (t, w1)" by (cases a) auto
  from quiet_trans [OF quiet_ticks [OF Some [unfolded a]] send_loop_quiet] Some a
  show ?thesis by (simp add: priv_send_def)
qed

lemma acquire_quiet: "quiet c w (client_of (acquire c w)) (world_of (acquire c w))"
  using wait_while_quiet [of c w locked 100]
  by (cases "wait_while locked 100 c w") (auto simp: acquire_def intro: quiet_locked)

lemma locked_send_quiet:
  "quiet c w (client_of (locked_send cf line c w)) (world_of (locked_send cf line c w))"
proof (cases "acquire c w")
  case (Returned u c1 w1)
  have q1: "quiet c w c1 w1" using acquire_quiet [of c w] Returned by simp
  have q2: "quiet c1 w1 (client_of (priv_send cf line c1 w1)) (world_of (priv_send cf line c1 w1))"
    by (rule priv_send_quiet)
  from quiet_trans [OF q1 q2] Returned show ?thesis
    by (cases "priv_send cf line c1 w1") (auto simp: locked_send_def release_def intro: quiet_locked)
next
  case (Raised e c1 w1)
  with acquire_quiet [of c w] show ?thesis by (simp add: locked_send_def)
next
  case (Pending c1 w1)
  with acquire_quiet [of c w] show ?thesis by (simp add: locked_send_def)
qed

text \<open>
  \<^verbatim>\<open>_write\<close>, the guarded send: wait until the session is healthy, send under the lock
  and return; when the send raises \<^verbatim>\<open>OSError\<close>, set the link-failure event, wait until
  the session is unhealthy and start again.
\<close>

function priv_write :: "config \<Rightarrow> string \<Rightarrow> client \<Rightarrow> world \<Rightarrow> unit outcome" where
  "priv_write cf line c w =
     (case wait_while (\<lambda>c. \<not> ok c) (tim_short cf) c w of
        Pending c1 w1 \<Rightarrow> Pending c1 w1
      | Raised e c1 w1 \<Rightarrow> Raised e c1 w1
      | Returned u c1 w1 \<Rightarrow>
          (case locked_send cf line c1 w1 of
             Pending c2 w2 \<Rightarrow> Pending c2 w2
           | Returned u c2 w2 \<Rightarrow> Returned () c2 w2
           | Raised e c2 w2 \<Rightarrow>
               if e = OSError then
                 (case wait_while ok (tim_short cf) (c2\<lparr>evfail := Some ''writer fail''\<rparr>) w2 of
                    Pending c3 w3 \<Rightarrow> Pending c3 w3
                  | Raised e c3 w3 \<Rightarrow> Raised e c3 w3
                  | Returned u c3 w3 \<Rightarrow> priv_write cf line c3 w3)
               else Raised e c2 w2))"
  by pat_completeness auto
termination
proof (relation "measure (\<lambda>(cf, line, c, w). length (sched w))", goal_cases)
  case 1
  show ?case by simp
next
  case (2 cf line c w u c1 w1 e c2 w2 u' c3 w3)
  have q1: "quiet c w c1 w1" and ok1: "ok c1"
    using wait_while_quiet [of c w "\<lambda>c. \<not> ok c" "tim_short cf"] wait_while_exit [OF 2(1)] 2(1)
    by simp_all
  have q2: "quiet c1 w1 c2 w2"
    using locked_send_quiet [of c1 w1 cf line] 2(2) by simp
  have q3: "quiet (c2\<lparr>evfail := Some ''writer fail''\<rparr>) w2 c3 w3" and ok3: "\<not> ok c3"
    using wait_while_quiet [of "c2\<lparr>evfail := Some ''writer fail''\<rparr>" w2 ok "tim_short cf"]
      wait_while_exit [OF 2(4)] 2(4)
    by simp_all
  from quiet_sched [OF q1] quiet_sched [OF q2] quiet_sched [OF q3] ok1 ok3
  have "length (sched w3) < length (sched w)"
    by (auto simp: le_less)
  then show ?case by simp
qed

declare priv_write.simps [simp del]

lemma priv_write_quiet:
  "quiet c w (client_of (priv_write cf line c w)) (world_of (priv_write cf line c w))"
proof (induction cf line c w rule: priv_write.induct)
  case (1 cf line c w)
  show ?case
  proof (cases "wait_while (\<lambda>c. \<not> ok c) (tim_short cf) c w")
    case (Pending c1 w1)
    with wait_while_quiet [of c w "\<lambda>c. \<not> ok c" "tim_short cf"] show ?thesis
      by (subst (1 2) priv_write.simps) simp
  next
    case (Raised e c1 w1)
    with wait_while_quiet [of c w "\<lambda>c. \<not> ok c" "tim_short cf"] show ?thesis
      by (subst (1 2) priv_write.simps) simp
  next
    case wt: (Returned u c1 w1)
    have q1: "quiet c w c1 w1"
      using wait_while_quiet [of c w "\<lambda>c. \<not> ok c" "tim_short cf"] wt by simp
    show ?thesis
    proof (cases "locked_send cf line c1 w1")
      case (Pending c2 w2)
      with locked_send_quiet [of c1 w1 cf line] q1 wt show ?thesis
        by (subst (1 2) priv_write.simps) (auto intro: quiet_trans)
    next
      case (Returned u2 c2 w2)
      with locked_send_quiet [of c1 w1 cf line] q1 wt show ?thesis
        by (subst (1 2) priv_write.simps) (auto intro: quiet_trans)
    next
      case ls: (Raised e c2 w2)
      have q2: "quiet c w c2 w2"
        using locked_send_quiet [of c1 w1 cf line] q1 ls by (auto intro: quiet_trans)
      show ?thesis
      proof (cases "e = OSError")
        case False
        with ls wt q2 show ?thesis by (subst (1 2) priv_write.simps) simp
      next
        case True
        let ?c = "c2\<lparr>evfail := Some ''writer fail''\<rparr>"
        have q2': "quiet c w ?c w2" using q2 by (rule quiet_evfail)
        have q3: "quiet ?c w2 (client_of (wait_while ok (tim_short cf) ?c w2))
                    (world_of (wait_while ok (tim_short cf) ?c w2))"
          by (rule wait_while_quiet)
        show ?thesis
        proof (cases "wait_while ok (tim_short cf) ?c w2")
          case (Pending c3 w3)
          with quiet_trans [OF q2' q3] ls wt True show ?thesis
            by (subst (1 2) priv_write.simps) simp
        next
          case (Raised e3 c3 w3)
          with quiet_trans [OF q2' q3] ls wt True show ?thesis
            by (subst (1 2) priv_write.simps) simp
        next
          case wd: (Returned u3 c3 w3)
          have "quiet c3 w3 (client_of (priv_write cf line c3 w3)) (world_of (priv_write cf line c3 w3))"
            using "1.IH" [OF wt ls True wd] .
          with quiet_trans [OF q2' q3] wd
          have "quiet c w (client_of (priv_write cf line c3 w3)) (world_of (priv_write cf line c3 w3))"
            by (auto intro: quiet_trans)
          with ls wt True wd show ?thesis
            by (subst (1 2) priv_write.simps) simp
        qed
      qed
    qed
  qed
qed

subsection \<open>Retransmission\<close>

text \<open>
  The \<^verbatim>\<open>for\<close> loop of \<^verbatim>\<open>_do_qos\<close> with \<open>n\<close> iterations to go: sleep 100 ms, then look
  whether the identifier has left the pending set. \<open>Returned True\<close> is the \<^verbatim>\<open>return\<close>
  inside the loop, \<open>Returned False\<close> the loop running out.
\<close>

fun qos_poll :: "nat \<Rightarrow> nat \<Rightarrow> client \<Rightarrow> world \<Rightarrow> bool outcome" where
  "qos_poll 0 mid c w = Returned False c w"
| "qos_poll (Suc n) mid c w =
     (case suspend 100 c w of
        None \<Rightarrow> Pending c w
      | Some (c1, w1) \<Rightarrow>
          if mid \<notin> acks_pend c1 then Returned True c1 w1 else qos_poll n mid c1 w1)"

lemma qos_poll_sched:
  "qos_poll n mid c w = Returned b c1 w1 \<Longrightarrow>
     length (sched w1) \<le> length (sched w) \<and> (0 < n \<longrightarrow> length (sched w1) < length (sched w))"
proof (induction n arbitrary: c w)
  case 0
  then show ?case by simp
next
  case (Suc n)
  from Suc.prems obtain c2 w2 where
    s: "suspend 100 c w = Some (c2, w2)" and
    r: "(mid \<notin> acks_pend c2 \<and> c1 = c2 \<and> w1 = w2) \<or> qos_poll n mid c2 w2 = Returned b c1 w1"
    by (auto split: option.splits if_splits)
  from s have "length (sched w2) < length (sched w)"
    by (auto simp: suspend_def split: list.splits)
  with r Suc.IH show ?case by fastforce
qed

text \<open>\<^verbatim>\<open>_do_qos\<close>.\<close>

function do_qos :: "config \<Rightarrow> nat \<Rightarrow> string \<Rightarrow> client \<Rightarrow> world \<Rightarrow> unit outcome" where
  "do_qos cf mid line c w =
     (case wait_while (\<lambda>c. \<not> ok c) (tim_short cf) c w of
        Pending c1 w1 \<Rightarrow> Pending c1 w1
      | Raised e c1 w1 \<Rightarrow> Raised e c1 w1
      | Returned u c1 w1 \<Rightarrow>
          (case qos_poll 10 mid c1 w1 of
             Pending c2 w2 \<Rightarrow> Pending c2 w2
           | Raised e c2 w2 \<Rightarrow> Raised e c2 w2
           | Returned acked c2 w2 \<Rightarrow>
               if acked then Returned () c2 w2
               else if ok c2 then
                 (case priv_write cf line c2 w2 of
                    Pending c3 w3 \<Rightarrow> Pending c3 w3
                  | Raised e c3 w3 \<Rightarrow> Raised e c3 w3
                  | Returned u c3 w3 \<Rightarrow> do_qos cf mid line c3 w3)
               else do_qos cf mid line c2 w2))"
  by pat_completeness auto
termination
proof (relation "measure (\<lambda>(cf, mid, line, c, w). length (sched w))", goal_cases)
  case 1
  show ?case by simp
next
  case (2 cf mid line c w u c1 w1 acked c2 w2 u' c3 w3)
  have "length (sched w1) \<le> length (sched w)"
    using wait_while_quiet [of c w "\<lambda>c. \<not> ok c" "tim_short cf"] 2(1) by (auto dest: quiet_sched)
  moreover have "length (sched w2) < length (sched w1)"
    using qos_poll_sched [OF 2(2)] by simp
  moreover have "length (sched w3) \<le> length (sched w2)"
    using priv_write_quiet [of c2 w2 cf line] 2(5) by (auto dest: quiet_sched)
  ultimately show ?case by simp
next
  case (3 cf mid line c w u c1 w1 acked c2 w2)
  have "length (sched w1) \<le> length (sched w)"
    using wait_while_quiet [of c w "\<lambda>c. \<not> ok c" "tim_short cf"] 3(1) by (auto dest: quiet_sched)
  moreover have "length (sched w2) < length (sched w1)"
    using qos_poll_sched [OF 3(2)] by simp
  ultimately show ?case by simp
qed

declare do_qos.simps [simp del]

subsection \<open>The application interface\<close>

text \<open>\<^verbatim>\<open>write\<close>: a fresh identifier is drawn and entered in the pending set, the line is
  built, sent by the guarded send and, with \<^verbatim>\<open>qos\<close>, retransmitted until acknowledged.\<close>

definition app_write :: "config \<Rightarrow> string \<Rightarrow> bool \<Rightarrow> client \<Rightarrow> world \<Rightarrow> unit outcome" where
  "app_write cf buf qos c w =
     (let mid = fst (gmid_next (getmid c));
          c1 = c\<lparr>getmid := snd (gmid_next (getmid c)), acks_pend := insert mid (acks_pend c)\<rparr>;
          line = serialize mid buf
      in case priv_write cf line c1 w of
           Pending c2 w2 \<Rightarrow> Pending c2 w2
         | Raised e c2 w2 \<Rightarrow> Raised e c2 w2
         | Returned u c2 w2 \<Rightarrow>
             if qos then do_qos cf mid line c2 w2 else Returned () c2 w2)"

subsection \<open>Facts about the wire format\<close>

lemma hexdigit_cases:
  "n < 16 \<Longrightarrow> hexdigit n = ''0123456789abcdef'' ! n"
  by (simp add: hexdigit_def)

lemma digit_range:
  "(k::nat) < 16 \<Longrightarrow> k \<in> {0, 1, 2, 3, 4, 5, 6, 7, 8, 9, 10, 11, 12, 13, 14, 15}"
  by (simp only: insert_iff empty_iff) arith

lemma hexval_hexdigit: "n < 16 \<Longrightarrow> hexval (hexdigit n) = Some n"
  by (drule digit_range) (auto simp: hexdigit_def hexval_def)

lemma hexdigit_not_nl: "hexdigit n \<noteq> nl"
  using digit_range [of "n mod 16"] by (auto simp: hexdigit_def nl_def)

lemma hex_of_small: "n < 16 \<Longrightarrow> hex_of n = [hexdigit n]"
  by (simp add: hex_of.simps)

lemma hex_of_byte: "16 \<le> n \<Longrightarrow> n < 256 \<Longrightarrow> hex_of n = [hexdigit (n div 16), hexdigit (n mod 16)]"
  by (subst hex_of.simps) (simp add: hex_of_small less_mult_imp_div_less)

lemma fmt_02x_byte: "n < 256 \<Longrightarrow> fmt_02x n = [hexdigit (n div 16), hexdigit (n mod 16)]"
proof (cases "n < 16")
  case True
  then have "hexdigit 0 = CHR ''0''" "n div 16 = 0" "n mod 16 = n"
    by (simp_all add: hexdigit_def)
  with True show ?thesis by (simp add: fmt_02x_def hex_of_small)
next
  case False
  assume "n < 256"
  with False show ?thesis by (simp add: fmt_02x_def hex_of_byte)
qed

lemma length_fmt_02x: "n < 256 \<Longrightarrow> length (fmt_02x n) = 2"
  by (simp add: fmt_02x_byte)

lemma int16_fmt_02x: "n < 256 \<Longrightarrow> int16 (fmt_02x n) = Some n"
proof -
  assume n: "n < 256"
  then have "n div 16 < 16" by (simp add: less_mult_imp_div_less)
  then show ?thesis
    using n by (simp add: fmt_02x_byte int16_def hexval_hexdigit)
qed

lemma fmt_02x_no_nl: "n < 256 \<Longrightarrow> nl \<notin> set (fmt_02x n)"
  using hexdigit_not_nl [of "n div 16"] hexdigit_not_nl [of "n mod 16"]
  by (auto simp: fmt_02x_byte)

lemma gmid_next_range:
  "0 < g \<Longrightarrow> g \<le> 255 \<Longrightarrow>
     fst (gmid_next g) = g \<and> 0 < snd (gmid_next g) \<and> snd (gmid_next g) \<le> 255"
  by (simp add: gmid_next_def)


subsection \<open>One step of each coroutine\<close>

lemma wait_while_skip: "\<not> p c \<Longrightarrow> wait_while p ms c w = Returned () c w"
  by (subst wait_while.simps) simp

lemma wait_while_step:
  "p c \<Longrightarrow> sched w = e # es \<Longrightarrow>
     wait_while p ms c w = wait_while p ms (e c) (w\<lparr>sched := es, slept := slept w @ [ms]\<rparr>)"
  by (subst wait_while.simps) (simp add: suspend_def)

lemma wait_while_cut: "p c \<Longrightarrow> sched w = [] \<Longrightarrow> wait_while p ms c w = Pending c w"
  by (subst wait_while.simps) (simp add: suspend_def)

lemma acquire_free: "\<not> locked c \<Longrightarrow> acquire c w = Returned () (c\<lparr>locked := True\<rparr>) w"
  by (simp add: acquire_def wait_while_skip)

lemma send_loop_done: "\<not> ns < nts \<Longrightarrow> send_loop cf d ns nts start c w = Returned () c w"
  by (subst send_loop.simps) simp

lemma priv_send_empty:
  "clock w = t0 # ts \<Longrightarrow> priv_send cf [] c w = Returned () c (w\<lparr>clock := ts\<rparr>)"
  by (simp add: priv_send_def ticks_ms_def send_loop_done)

text \<open>The socket takes the whole line at the first call.\<close>

lemma send_loop_whole:
  assumes "ns < nts" and "clock w = t1 # ts" and "sends w = Accepts n # rs"
    and "\<not> ns + n < nts"
  shows "send_loop cf d ns nts t0 c w =
     (if ticks_diff t1 t0 > to cf
      then Raised OSError c (w\<lparr>clock := ts, sends := rs, wire := wire w @ [take n d]\<rparr>)
      else Returned () c (w\<lparr>clock := ts, sends := rs, wire := wire w @ [take n d]\<rparr>))"
proof -
  let ?w1 = "w\<lparr>sends := rs, wire := wire w @ [take n d]\<rparr>"
  have tk: "ticks_ms ?w1 = Some (t1, ?w1\<lparr>clock := ts\<rparr>)"
    using assms(2) by (simp add: ticks_ms_def)
  have "send_loop cf d ns nts t0 c w =
     (if ticks_diff t1 t0 > to cf then Raised OSError c (?w1\<lparr>clock := ts\<rparr>)
      else send_loop cf d (ns + n) nts t0 c (?w1\<lparr>clock := ts\<rparr>))"
    using assms(1,3,4) tk by (subst send_loop.simps) simp
  also have "send_loop cf d (ns + n) nts t0 c (?w1\<lparr>clock := ts\<rparr>) = Returned () c (?w1\<lparr>clock := ts\<rparr>)"
    using assms(4) by (rule send_loop_done)
  finally show ?thesis by simp
qed

lemma priv_send_whole:
  assumes "d \<noteq> []" and "clock w = t0 # t1 # ts" and "sends w = Accepts n # rs"
    and "length d \<le> n"
  shows "priv_send cf d c w =
     (if ticks_diff t1 t0 > to cf
      then Raised OSError c (w\<lparr>clock := ts, sends := rs, wire := wire w @ [d]\<rparr>)
      else Returned () c (w\<lparr>clock := ts, sends := rs, wire := wire w @ [d]\<rparr>))"
proof -
  have "priv_send cf d c w = send_loop cf d 0 (nchars d) t0 c (w\<lparr>clock := t1 # ts\<rparr>)"
    using assms(2) by (simp add: priv_send_def ticks_ms_def)
  also have "\<dots> =
     (if ticks_diff t1 t0 > to cf
      then Raised OSError c (w\<lparr>clock := t1 # ts\<rparr>\<lparr>clock := ts, sends := rs,
             wire := wire (w\<lparr>clock := t1 # ts\<rparr>) @ [take n d]\<rparr>)
      else Returned () c (w\<lparr>clock := t1 # ts\<rparr>\<lparr>clock := ts, sends := rs,
             wire := wire (w\<lparr>clock := t1 # ts\<rparr>) @ [take n d]\<rparr>))"
    using assms nchars_le [of d] by (intro send_loop_whole) simp_all
  finally show ?thesis using assms(4) by simp
qed

lemma release_acquired: "\<not> locked c \<Longrightarrow> release (c\<lparr>locked := True\<rparr>) = c"
  by (cases c) (simp add: release_def)

lemma locked_send_whole:
  assumes "\<not> locked c" and "d \<noteq> []" and "clock w = t0 # t1 # ts"
    and "sends w = Accepts n # rs" and "length d \<le> n"
  shows "locked_send cf d c w =
     (if ticks_diff t1 t0 > to cf
      then Raised OSError c (w\<lparr>clock := ts, sends := rs, wire := wire w @ [d]\<rparr>)
      else Returned () c (w\<lparr>clock := ts, sends := rs, wire := wire w @ [d]\<rparr>))"
  using assms
  by (simp add: locked_send_def acquire_free priv_send_whole [where ?t0.0 = t0 and ?t1.0 = t1]
      release_acquired)

lemma priv_write_whole:
  assumes "ok c" and "\<not> locked c" and "d \<noteq> []" and "clock w = t0 # t1 # ts"
    and "sends w = Accepts n # rs" and "length d \<le> n" and "\<not> ticks_diff t1 t0 > to cf"
  shows "priv_write cf d c w =
     Returned () c (w\<lparr>clock := ts, sends := rs, wire := wire w @ [d]\<rparr>)"
  using assms
  by (subst priv_write.simps)
    (simp add: wait_while_skip locked_send_whole [where ?t0.0 = t0 and ?t1.0 = t1])

lemma serialize_nonempty: "serialize mid buf \<noteq> []"
  by (auto simp: serialize_def endswith_nl_def)

subsection \<open>The serialized line\<close>

lemma butlast_endswith_append:
  assumes "nl \<notin> set pre" and "pre \<noteq> []"
  shows "endswith_nl (pre @ xs) = endswith_nl xs"
proof (cases "xs = []")
  case True
  from assms have "last pre \<noteq> nl" by (metis last_in_set)
  with True show ?thesis by (simp add: endswith_nl_def)
next
  case False
  then show ?thesis by (simp add: endswith_nl_def)
qed

lemma serialize_double:
  assumes "mid < 256" and "endswith_nl (butlast (serialize mid buf))"
  shows "endswith_nl buf \<and> endswith_nl (butlast buf)"
proof (cases "endswith_nl buf")
  case True
  then have b: "buf \<noteq> []" by (simp add: endswith_nl_def)
  have pre: "nl \<notin> set (fmt_02x mid)" "fmt_02x mid \<noteq> []"
    using assms(1) fmt_02x_no_nl [of mid] length_fmt_02x [of mid] by auto
  from True b assms(2) have "endswith_nl (fmt_02x mid @ butlast buf)"
    by (simp add: serialize_def butlast_append)
  with pre True show ?thesis by (simp add: butlast_endswith_append)
next
  case False
  have pre: "nl \<notin> set (fmt_02x mid)" "fmt_02x mid \<noteq> []"
    using assms(1) fmt_02x_no_nl [of mid] length_fmt_02x [of mid] by auto
  from False assms(2) have "endswith_nl (fmt_02x mid @ buf)"
    by (simp add: serialize_def butlast_append) 
  with pre False show ?thesis by (simp add: butlast_endswith_append)
qed

lemma app_write_first_line:
  assumes "ok c" and "\<not> locked c" and "clock w = t0 # t1 # ts"
    and "\<not> ticks_diff t1 t0 > to cf" and "sends w = Accepts n # rs"
    and "length (serialize (getmid c) buf) \<le> n" and "sched w = []"
  shows "world_of (app_write cf buf qos c w) =
     w\<lparr>clock := ts, sends := rs, wire := wire w @ [serialize (getmid c) buf]\<rparr>"
proof -
  let ?c1 = "c\<lparr>getmid := snd (gmid_next (getmid c)), acks_pend := insert (getmid c) (acks_pend c)\<rparr>"
  let ?w1 = "w\<lparr>clock := ts, sends := rs, wire := wire w @ [serialize (getmid c) buf]\<rparr>"
  have pw: "priv_write cf (serialize (getmid c) buf) ?c1 w = Returned () ?c1 ?w1"
    using assms by (intro priv_write_whole [where ?t0.0 = t0 and ?t1.0 = t1 and n = n])
      (simp_all add: serialize_nonempty)
  have dq: "do_qos cf (getmid c) (serialize (getmid c) buf) ?c1 ?w1 = Pending ?c1 ?w1"
    using assms(1,7)
    by (subst do_qos.simps) (simp add: wait_while_skip eval_nat_numeral suspend_def)
  show ?thesis
    using pw dq by (simp add: app_write_def gmid_next_def Let_def)
qed

text \<open>
  C10. For every call of \<^verbatim>\<open>write\<close>, with the identifier \<open>mid\<close> the generator hands out (a
  byte): the serialized line is the two hexadecimal digits of the identifier, which decode
  back to it, followed by the payload, with a newline appended only when the payload does
  not already end with one; the line ends with two newlines only where the payload did;
  a payload that is empty or a lone newline gives a line of three bytes that is exactly
  the ACK line of that identifier. On a healthy link whose socket takes the line at once
  this line is what the call puts on the wire.
\<close>

theorem serialize_line:
  assumes "getmid c < 256"
  shows "serialize (getmid c) buf =
           fmt_02x (getmid c) @ buf @ (if endswith_nl buf then [] else [nl])
         \<and> length (fmt_02x (getmid c)) = 2
         \<and> int16 (fmt_02x (getmid c)) = Some (getmid c)
         \<and> nl \<notin> set (fmt_02x (getmid c))
         \<and> endswith_nl (serialize (getmid c) buf)
         \<and> (endswith_nl (butlast (serialize (getmid c) buf))
              \<longrightarrow> endswith_nl buf \<and> endswith_nl (butlast buf))
         \<and> (buf = [] \<or> buf = [nl]
              \<longrightarrow> serialize (getmid c) buf = ack_line (getmid c)
                  \<and> length (serialize (getmid c) buf) = 3)
         \<and> (ok c \<and> \<not> locked c \<and> clock w = t0 # t1 # ts \<and> \<not> ticks_diff t1 t0 > to cf
              \<and> sends w = Accepts n # rs \<and> length (serialize (getmid c) buf) \<le> n
              \<and> sched w = []
              \<longrightarrow> wire (world_of (app_write cf buf qos c w))
                    = wire w @ [serialize (getmid c) buf])"
proof (intro conjI impI)
  show "serialize (getmid c) buf = fmt_02x (getmid c) @ buf @ (if endswith_nl buf then [] else [nl])"
    by (simp add: serialize_def)
  show "length (fmt_02x (getmid c)) = 2"
    using assms by (rule length_fmt_02x)
  show "int16 (fmt_02x (getmid c)) = Some (getmid c)"
    using assms by (rule int16_fmt_02x)
  show "nl \<notin> set (fmt_02x (getmid c))"
    using assms by (rule fmt_02x_no_nl)
  show "endswith_nl (serialize (getmid c) buf)"
    by (auto simp: serialize_def endswith_nl_def)
next
  assume "endswith_nl (butlast (serialize (getmid c) buf))"
  with assms serialize_double show "endswith_nl buf" "endswith_nl (butlast buf)"
    by blast+
next
  assume b: "buf = [] \<or> buf = [nl]"
  then show "serialize (getmid c) buf = ack_line (getmid c)"
    by (auto simp: serialize_def ack_line_def endswith_nl_def)
  with assms show "length (serialize (getmid c) buf) = 3"
    by (simp add: ack_line_def length_fmt_02x)
next
  assume "ok c \<and> \<not> locked c \<and> clock w = t0 # t1 # ts \<and> \<not> ticks_diff t1 t0 > to cf
    \<and> sends w = Accepts n # rs \<and> length (serialize (getmid c) buf) \<le> n \<and> sched w = []"
  then show "wire (world_of (app_write cf buf qos c w)) = wire w @ [serialize (getmid c) buf]"
    by (simp add: app_write_first_line [where ?t0.0 = t0 and ?t1.0 = t1 and n = n])
qed

text \<open>A session and a world to run the coroutines on: a healthy link, nothing pending,
  the generator at its first identifier, and no oracle answers yet.\<close>

definition client0 :: client where
  "client0 = \<lparr>ok = True, acks_pend = {}, evread = None, evfail = None, locked = False,
     connects = 0, led = None, getmid = 1, dupwin = \<lparr>capacity = 32, seen = []\<rparr>\<rparr>"

definition world0 :: world where
  "world0 = \<lparr>clock = [], recvs = [], sends = [], wifi = [], stat = [], sched = [],
     wire = [], slept = [], calls = []\<rparr>"

definition config0 :: config where
  "config0 = \<lparr>my_id = ''dev1\<newline>'', to = 4000\<rparr>"


lemmas c2 = conjunct2

theorem serialize_line_witness:
  "getmid client0 < 256
   \<and> serialize 1 ''ab'' = ''01ab\<newline>''
   \<and> serialize 1 ''ab\<newline>'' = ''01ab\<newline>''
   \<and> serialize 1 [] = ack_line 1 \<and> serialize 1 ''\<newline>'' = ''01\<newline>''
   \<and> wire (world_of (app_write config0 ''ab'' False client0
        (world0\<lparr>clock := [0, 1], sends := [Accepts 5]\<rparr>))) = [''01ab\<newline>'']"
proof -
  let ?w = "world0\<lparr>clock := [0, 1], sends := [Accepts 5]\<rparr>"
  have g: "getmid client0 < 256" "getmid client0 = 1"
    by (simp_all add: client0_def)
  have f: "fmt_02x (Suc 0) = ''01''"
    by (simp add: fmt_02x_byte hexdigit_def)
  have e: "endswith_nl ''ab\<newline>''" "\<not> endswith_nl ''ab''" "endswith_nl ''\<newline>''"
    by (simp_all add: endswith_nl_def nl_def)
  have s: "serialize 1 ''ab'' = ''01ab\<newline>''" "serialize 1 ''ab\<newline>'' = ''01ab\<newline>''"
    "serialize 1 ''\<newline>'' = ''01\<newline>''"
    using e by (simp_all add: serialize_def f nl_def)
  have s': "serialize (Suc 0) ''ab'' = ''01ab\<newline>''"
    using s(1) by simp
  note t = serialize_line [OF g(1), where buf = "[]", THEN c2, THEN c2, THEN c2, THEN c2,
          THEN c2, THEN c2, THEN conjunct1]
  then have "serialize (getmid client0) [] = ack_line (getmid client0)" by simp
  then have a: "serialize 1 [] = ack_line 1" by (simp only: g(2))
  have h: "ok client0 \<and> \<not> locked client0
     \<and> clock ?w = 0 # 1 # []
     \<and> \<not> ticks_diff 1 0 > to config0
     \<and> sends ?w = Accepts 5 # []
     \<and> length (serialize (getmid client0) ''ab'') \<le> 5
     \<and> sched ?w = []"
    by (simp add: client0_def world0_def config0_def ticks_diff_def s')
  have "wire (world_of (app_write config0 ''ab'' False client0 ?w))
        = wire ?w @ [serialize (getmid client0) ''ab'']"
    by (rule serialize_line [OF g(1), of "''ab''" ?w 0 1 "[]" config0 5 "[]" False,
          THEN c2, THEN c2, THEN c2, THEN c2, THEN c2, THEN c2, THEN c2, THEN mp, OF h])
  moreover have "wire ?w = []" by (simp add: world0_def)
  moreover have "serialize (getmid client0) ''ab'' = ''01ab\<newline>''"
    by (simp add: client0_def s')
  ultimately have w: "wire (world_of (app_write config0 ''ab'' False client0 ?w))
      = [''01ab\<newline>'']"
    by simp
  from g(1) s a w show ?thesis by (intro conjI)
qed

subsection \<open>What the raw send does\<close>

text \<open>One pass through the loop of \<^verbatim>\<open>_send\<close>, by cases.\<close>

lemma send_loop_cases [consumes 1, case_names fin nosend fails cut late again]:
  assumes "send_loop cf d ns nts start c w = r"
  obtains
    (fin) "\<not> ns < nts" "r = Returned () c w"
  | (nosend) "ns < nts" "sends w = []" "r = Pending c w"
  | (fails) rs where "ns < nts" "sends w = SendFails # rs" "r = Raised OSError c (w\<lparr>sends := rs\<rparr>)"
  | (cut) n rs c2 w2 where "ns < nts" "sends w = Accepts n # rs" "r = Pending c2 w2"
      "wire w2 = wire w @ [take n d]"
  | (late) n rs c2 w3 t where "ns < nts" "sends w = Accepts n # rs" "r = Raised OSError c2 w3"
      "wire w3 = wire w @ [take n d]" "sends w3 = rs" "clock w = t # clock w3"
      "ticks_diff t start > to cf"
  | (again) n rs c2 w3 t where "ns < nts" "sends w = Accepts n # rs"
      "r = send_loop cf (if ns + n < nts then drop_chars n d else d) (ns + n) nts start c2 w3"
      "wire w3 = wire w @ [take n d]" "sends w3 = rs" "clock w = t # clock w3"
      "\<not> ticks_diff t start > to cf"
proof (cases "ns < nts")
  case False
  with assms have "r = Returned () c w" by (subst (asm) send_loop.simps) simp
  with False show ?thesis by (rule fin)
next
  case lt: True
  show ?thesis
  proof (cases "sends w")
    case Nil
    with lt assms have "r = Pending c w" by (subst (asm) send_loop.simps) simp
    with lt Nil show ?thesis by (rule nosend)
  next
    case (Cons x rs)
    show ?thesis
    proof (cases x)
      case SendFails
      with lt Cons assms have "r = Raised OSError c (w\<lparr>sends := rs\<rparr>)"
        by (subst (asm) send_loop.simps) simp
      with lt Cons SendFails show ?thesis by (auto intro: fails)
    next
      case (Accepts n)
      define w1 where "w1 = w\<lparr>sends := rs, wire := wire w @ [take n d]\<rparr>"
      have sw: "sends w = Accepts n # rs" using Cons Accepts by simp
      have r: "r = (case (if ns + n < nts then suspend 20 c w1 else Some (c, w1)) of
                None \<Rightarrow> Pending c w1
              | Some (c2, w2) \<Rightarrow>
                  (case ticks_ms w2 of
                     None \<Rightarrow> Pending c2 w2
                   | Some (t, w3) \<Rightarrow>
                       if ticks_diff t start > to cf then Raised OSError c2 w3
                       else send_loop cf (if ns + n < nts then drop_chars n d else d)
                              (ns + n) nts start c2 w3))"
        using lt sw assms [symmetric] unfolding w1_def by (subst (asm) send_loop.simps) (simp add: Let_def)
      show ?thesis
      proof (cases "if ns + n < nts then suspend 20 c w1 else Some (c, w1)")
        case None
        with r have "r = Pending c w1" by simp
        with lt sw show ?thesis by (rule cut) (simp add: w1_def)
      next
        case (Some a)
        obtain c2 w2 where a: "a = (c2, w2)" by (cases a) auto
        have w2: "wire w2 = wire w1" "sends w2 = sends w1" "clock w2 = clock w1"
          using Some a by (auto split: if_splits dest: suspend_fields)
        show ?thesis
        proof (cases "ticks_ms w2")
          case None
          with r Some a have "r = Pending c2 w2" by simp
          with lt sw show ?thesis by (rule cut) (simp add: w2 w1_def)
        next
          case tk: (Some b)
          obtain t w3 where b: "b = (t, w3)" by (cases b) auto
          have w3: "wire w3 = wire w @ [take n d]" "sends w3 = rs" "clock w = t # clock w3"
            using ticks_ms_fields [OF tk [unfolded b]] w2 by (simp_all add: w1_def)
          show ?thesis
          proof (cases "ticks_diff t start > to cf")
            case True
            with r Some a tk b have "r = Raised OSError c2 w3" by simp
            with lt sw show ?thesis using w3 True by (rule late)
          next
            case False
            with r Some a tk b
            have "r = send_loop cf (if ns + n < nts then drop_chars n d else d) (ns + n) nts start c2 w3"
              by simp
            with lt sw show ?thesis using w3 False by (rule again)
          qed
        qed
      qed
    qed
  qed
qed





text \<open>An exception: it is \<^verbatim>\<open>OSError\<close>, and the last answer of the socket was an error or
  the last reading of the clock was beyond the timeout.\<close>

lemma send_loop_Raised:
  assumes "send_loop cf d ns nts start c w = Raised e c' w'"
  shows "e = OSError
     \<and> ((\<exists>pre. sends w = pre @ SendFails # sends w')
        \<or> (\<exists>pre t. clock w = pre @ t # clock w' \<and> ticks_diff t start > to cf))"
  using assms
proof (induction "sends w" arbitrary: d ns c w)
  case Nil
  from Nil.prems Nil.hyps show ?case
    by (cases rule: send_loop_cases) auto
next
  case (Cons x xs)
  from Cons.prems show ?case
  proof (cases rule: send_loop_cases)
    case (fails rs)
    then show ?thesis by auto
  next
    case (late n rs c2 w3 t)
    then have "clock w = [] @ t # clock w' \<and> ticks_diff t start > to cf" by simp
    with late show ?thesis by blast
  next
    case (again n rs c2 w3 t)
    have xs: "xs = sends w3" using Cons.hyps(2) again(2,5) by simp
    from again(3)
    have rec: "send_loop cf (if ns + n < nts then drop_chars n d else d) (ns + n) nts start c2 w3
        = Raised e c' w'"
      by simp
    from Cons.hyps(1) [OF xs rec] have e: "e = OSError" and
      alt: "(\<exists>pre. sends w3 = pre @ SendFails # sends w')
        \<or> (\<exists>pre t. clock w3 = pre @ t # clock w' \<and> ticks_diff t start > to cf)"
      by blast+
    from alt show ?thesis
    proof
      assume "\<exists>pre. sends w3 = pre @ SendFails # sends w'"
      then obtain pre where "sends w3 = pre @ SendFails # sends w'" by blast
      with again(2,5) have "sends w = (Accepts n # pre) @ SendFails # sends w'" by simp
      with e show ?thesis by blast
    next
      assume "\<exists>pre t. clock w3 = pre @ t # clock w' \<and> ticks_diff t start > to cf"
      then obtain pre t' where "clock w3 = pre @ t' # clock w'" "ticks_diff t' start > to cf"
        by blast
      with again(6) have "clock w = (t # pre) @ t' # clock w' \<and> ticks_diff t' start > to cf"
        by simp
      with e show ?thesis by blast
    qed
  qed simp_all
qed





subsection \<open>What the line reader does\<close>

lemma readline_loop_return:
  "endswith_nl line \<Longrightarrow> length line > 1 \<Longrightarrow>
     readline_loop cf line start c w = Returned line (c\<lparr>ok := True\<rparr>) w"
  by (subst readline_loop.simps) (simp add: readline_top_def)

lemma readline_loop_keepalive:
  "clock w = t # ts \<Longrightarrow>
     readline_loop cf [nl] start c w =
       readline_loop cf [] t (c\<lparr>ok := True, led := map_option Not (led c)\<rparr>)
         (w\<lparr>calls := calls w @ [WdtFeed 5], clock := ts\<rparr>)"
  by (subst (1 2) readline_loop.simps)
    (simp add: readline_top_def endswith_nl_def ticks_ms_def)

lemma readline_loop_keepalive_cut:
  "clock w = [] \<Longrightarrow>
     readline_loop cf [nl] start c w =
       Pending (c\<lparr>ok := True\<rparr>) (w\<lparr>calls := calls w @ [WdtFeed 5]\<rparr>)"
  by (subst readline_loop.simps) (simp add: readline_top_def endswith_nl_def ticks_ms_def)

lemma readline_loop_closed:
  "\<not> endswith_nl line \<Longrightarrow> recvs w = Some [] # ds \<Longrightarrow>
     readline_loop cf line start c w = Raised OSError c (w\<lparr>recvs := ds\<rparr>)"
  by (subst readline_loop.simps) (simp add: readline_top_def readline_recv_def)

lemma readline_loop_data:
  "\<not> endswith_nl line \<Longrightarrow> recvs w = Some x # ds \<Longrightarrow> x \<noteq> [] \<Longrightarrow> clock w = t # ts \<Longrightarrow>
     readline_loop cf line start c w =
       (if ticks_diff t start > to cf then Raised OSError c (w\<lparr>recvs := ds, clock := ts\<rparr>)
        else readline_loop cf (line @ x) start c (w\<lparr>recvs := ds, clock := ts\<rparr>))"
  by (subst readline_loop.simps) (simp add: readline_top_def readline_recv_def ticks_ms_def)

lemma readline_loop_nothing:
  "\<not> endswith_nl line \<Longrightarrow> recvs w = None # ds \<Longrightarrow> sched w = f # fs \<Longrightarrow> clock w = t # ts \<Longrightarrow>
     readline_loop cf line start c w =
       (if ticks_diff t start > to cf
        then Raised OSError (f c)
          (w\<lparr>recvs := ds, sched := fs, slept := slept w @ [100], clock := ts\<rparr>)
        else readline_loop cf line start (f c)
          (w\<lparr>recvs := ds, sched := fs, slept := slept w @ [100], clock := ts\<rparr>))"
  by (subst readline_loop.simps)
    (simp add: readline_top_def readline_recv_def ticks_ms_def suspend_def)

lemma readline_loop_cut:
  "\<not> endswith_nl line \<Longrightarrow> recvs w = [] \<Longrightarrow> readline_loop cf line start c w = Pending c w"
  by (subst readline_loop.simps) (simp add: readline_top_def readline_recv_def)

text \<open>What is returned is a line of more than the delimiter, and the session is healthy;
  what is raised is \<^verbatim>\<open>OSError\<close>.\<close>

lemma readline_loop_Returned:
  "readline_loop cf line start c w = Returned l c' w' \<Longrightarrow>
     ok c' \<and> endswith_nl l \<and> length l > 1"
proof (induction cf line start c w rule: readline_loop.induct)
  case (1 cf line start c w)
  show ?case
  proof (cases "readline_top line start c w")
    case (Inl out)
    with "1.prems" have "out = Returned l c' w'"
      by (subst (asm) readline_loop.simps) simp
    with Inl show ?thesis
      by (auto simp: readline_top_def Let_def split: if_splits option.splits)
  next
    case (Inr x)
    obtain la sa ca wa where x: "x = (la, sa, ca, wa)"
      by (cases x) auto
    note top = Inr [unfolded x]
    show ?thesis
    proof (cases "readline_recv la ca wa")
      case (Inl out)
      with "1.prems" top have "out = Returned l c' w'"
        by (subst (asm) readline_loop.simps) simp
      with Inl show ?thesis
        by (simp add: readline_recv_Inl)
    next
      case (Inr y)
      obtain lb cb wb where y: "y = (lb, cb, wb)"
        by (cases y) auto
      note rcv = Inr [unfolded y]
      from "1.prems" top rcv obtain t wc where
        tk: "ticks_ms wb = Some (t, wc)" and
        nto: "\<not> ticks_diff t sa > to cf" and
        rec: "readline_loop cf lb sa cb wc = Returned l c' w'"
        by (subst (asm) readline_loop.simps) (auto split: option.splits if_splits)
      show ?thesis
        using "1.IH" [OF top refl refl refl rcv refl refl tk refl nto rec] .
    qed
  qed
qed

lemma readline_loop_Raised:
  "readline_loop cf line start c w = Raised e c' w' \<Longrightarrow> e = OSError"
proof (induction cf line start c w rule: readline_loop.induct)
  case (1 cf line start c w)
  show ?case
  proof (cases "readline_top line start c w")
    case (Inl out)
    with "1.prems" have "out = Raised e c' w'"
      by (subst (asm) readline_loop.simps) simp
    with Inl show ?thesis
      by (auto simp: readline_top_def Let_def split: if_splits option.splits)
  next
    case (Inr x)
    obtain la sa ca wa where x: "x = (la, sa, ca, wa)"
      by (cases x) auto
    note top = Inr [unfolded x]
    show ?thesis
    proof (cases "readline_recv la ca wa")
      case (Inl out)
      with "1.prems" top have "out = Raised e c' w'"
        by (subst (asm) readline_loop.simps) simp
      with Inl show ?thesis
        by (auto simp: readline_recv_def Let_def split: list.splits option.splits if_splits)
    next
      case (Inr y)
      obtain lb cb wb where y: "y = (lb, cb, wb)"
        by (cases y) auto
      note rcv = Inr [unfolded y]
      from "1.prems" top rcv have
        "e = OSError \<or> (\<exists>t wc. ticks_ms wb = Some (t, wc) \<and> \<not> ticks_diff t sa > to cf
            \<and> readline_loop cf lb sa cb wc = Raised e c' w')"
        by (subst (asm) readline_loop.simps) (auto split: option.splits if_splits)
      then show ?thesis
        using "1.IH" [OF top refl refl refl rcv refl refl _ refl] by blast
    qed
  qed
qed

lemma readline_run: "priv_readline config0 (client0\<lparr>ok := False, led := Some False\<rparr>)
     (world0\<lparr>clock := [0, 1, 2, 3, 4, 5],
        recvs := [Some ''\<newline>'', None, Some ''01a'', Some ''b\<newline>''], sched := [id]\<rparr>)
   = Returned ''01ab\<newline>'' (client0\<lparr>ok := True, led := Some True\<rparr>)
       (world0\<lparr>slept := [100], calls := [WdtFeed 5]\<rparr>)"
  apply (simp add: priv_readline_def ticks_ms_def world0_def config0_def)
  apply (subst readline_loop_data [where x = "''\<newline>''" and t = 1], simp add: endswith_nl_def, simp, simp, simp)
  apply (simp add: ticks_diff_def)
  apply (subst readline_loop_keepalive [unfolded nl_def, where t = 2], simp)
  apply simp
  apply (subst readline_loop_nothing [where t = 3 and f = id], simp add: endswith_nl_def, simp, simp, simp)
  apply (simp add: ticks_diff_def)
  apply (subst readline_loop_data [where x = "''01a''" and t = 4], simp add: endswith_nl_def, simp, simp, simp)
  apply (simp add: ticks_diff_def)
  apply (subst readline_loop_data [where x = "''b\<newline>''" and t = 5], simp add: endswith_nl_def nl_def, simp, simp, simp)
  apply (simp add: ticks_diff_def)
  apply (subst readline_loop_return, simp add: endswith_nl_def nl_def, simp)
  apply (simp add: client0_def)
  done


text \<open>
  C7, as the code has it. In \<^verbatim>\<open>_readline\<close> a buffer that ends with the delimiter sets the
  health flag when the loop comes round to it, at the head of the next pass: a longer
  line is then returned with the flag set, so that a line that is returned leaves the
  flag set, is longer than the delimiter alone and ends with it, and a keepalive is never
  returned; a keepalive sets the flag too, is discarded, feeds the watchdog, takes a new
  reading of the clock as the start of the timeout, and toggles the indicator where there
  is one. The start is otherwise the reading taken when the call began. After every read,
  and before the loop comes round, the clock is read and a reading more than the timeout
  past the start in force raises \<^verbatim>\<open>OSError\<close>, which is also what a closed link (an empty
  read) raises and the only exception there is; so a line that the last read completed
  is lost, the flag not set, when that reading is too late. Within the timeout what was
  read is appended to the buffer.
\<close>

theorem readline_behaviour:
  "(priv_readline cf c w = Returned l c' w' \<longrightarrow> ok c' \<and> endswith_nl l \<and> 1 < length l)
   \<and> (priv_readline cf c w = Raised e c' w' \<longrightarrow> e = OSError)
   \<and> (clock w = t # ts \<longrightarrow>
        priv_readline cf c w = readline_loop cf [] t c (w\<lparr>clock := ts\<rparr>)
        \<and> readline_loop cf [nl] start c w =
            readline_loop cf [] t (c\<lparr>ok := True, led := map_option Not (led c)\<rparr>)
              (w\<lparr>calls := calls w @ [WdtFeed 5], clock := ts\<rparr>))
   \<and> (\<not> endswith_nl line \<and> recvs w = Some [] # ds \<longrightarrow>
        readline_loop cf line start c w = Raised OSError c (w\<lparr>recvs := ds\<rparr>))
   \<and> (\<not> endswith_nl line \<and> recvs w = Some x # ds \<and> x \<noteq> [] \<and> clock w = t # ts \<longrightarrow>
        readline_loop cf line start c w =
          (if ticks_diff t start > to cf then Raised OSError c (w\<lparr>recvs := ds, clock := ts\<rparr>)
           else readline_loop cf (line @ x) start c (w\<lparr>recvs := ds, clock := ts\<rparr>)))
   \<and> (\<not> endswith_nl line \<and> recvs w = None # ds \<and> sched w = f # fs \<and> clock w = t # ts \<longrightarrow>
        readline_loop cf line start c w =
          (if ticks_diff t start > to cf
           then Raised OSError (f c)
             (w\<lparr>recvs := ds, sched := fs, slept := slept w @ [100], clock := ts\<rparr>)
           else readline_loop cf line start (f c)
             (w\<lparr>recvs := ds, sched := fs, slept := slept w @ [100], clock := ts\<rparr>)))
   \<and> (endswith_nl line \<and> 1 < length line \<longrightarrow>
        readline_loop cf line start c w = Returned line (c\<lparr>ok := True\<rparr>) w)"
proof (intro conjI impI)
  assume "endswith_nl line \<and> 1 < length line"
  then show "readline_loop cf line start c w = Returned line (c\<lparr>ok := True\<rparr>) w"
    by (simp add: readline_loop_return)
next
  assume "priv_readline cf c w = Returned l c' w'"
  then obtain t0 w1 where "readline_loop cf [] t0 c w1 = Returned l c' w'"
    by (auto simp: priv_readline_def split: option.splits)
  from readline_loop_Returned [OF this]
  show "ok c'" and "endswith_nl l" and "1 < length l" by simp_all
next
  assume "priv_readline cf c w = Raised e c' w'"
  then obtain t0 w1 where "readline_loop cf [] t0 c w1 = Raised e c' w'"
    by (auto simp: priv_readline_def split: option.splits)
  then show "e = OSError" by (rule readline_loop_Raised)
next
  assume t: "clock w = t # ts"
  then show "priv_readline cf c w = readline_loop cf [] t c (w\<lparr>clock := ts\<rparr>)"
    by (simp add: priv_readline_def ticks_ms_def)
  from t show "readline_loop cf [nl] start c w =
      readline_loop cf [] t (c\<lparr>ok := True, led := map_option Not (led c)\<rparr>)
        (w\<lparr>calls := calls w @ [WdtFeed 5], clock := ts\<rparr>)"
    by (rule readline_loop_keepalive)
next
  assume "\<not> endswith_nl line \<and> recvs w = Some [] # ds"
  then show "readline_loop cf line start c w = Raised OSError c (w\<lparr>recvs := ds\<rparr>)"
    by (simp add: readline_loop_closed)
next
  assume "\<not> endswith_nl line \<and> recvs w = Some x # ds \<and> x \<noteq> [] \<and> clock w = t # ts"
  then show "readline_loop cf line start c w =
          (if ticks_diff t start > to cf then Raised OSError c (w\<lparr>recvs := ds, clock := ts\<rparr>)
           else readline_loop cf (line @ x) start c (w\<lparr>recvs := ds, clock := ts\<rparr>))"
    by (simp add: readline_loop_data [where x = x and t = t])
next
  assume "\<not> endswith_nl line \<and> recvs w = None # ds \<and> sched w = f # fs \<and> clock w = t # ts"
  then show "readline_loop cf line start c w =
          (if ticks_diff t start > to cf
           then Raised OSError (f c)
             (w\<lparr>recvs := ds, sched := fs, slept := slept w @ [100], clock := ts\<rparr>)
           else readline_loop cf line start (f c)
             (w\<lparr>recvs := ds, sched := fs, slept := slept w @ [100], clock := ts\<rparr>))"
    by (simp add: readline_loop_nothing [where f = f and t = t])
qed

text \<open>A keepalive, a read that finds nothing, and a line in two pieces, on a session that
  is not yet healthy and has an indicator.\<close>

theorem readline_behaviour_witness:
  "priv_readline config0 (client0\<lparr>ok := False, led := Some False\<rparr>)
     (world0\<lparr>clock := [0, 1, 2, 3, 4, 5],
        recvs := [Some ''\<newline>'', None, Some ''01a'', Some ''b\<newline>''], sched := [id]\<rparr>)
   = Returned ''01ab\<newline>'' (client0\<lparr>ok := True, led := Some True\<rparr>)
       (world0\<lparr>slept := [100], calls := [WdtFeed 5]\<rparr>)
   \<and> ok (client0\<lparr>ok := True, led := Some True\<rparr>)
   \<and> endswith_nl ''01ab\<newline>'' \<and> 1 < length ''01ab\<newline>''
   \<and> readline_loop config0 ''01'' 0 client0 (world0\<lparr>recvs := [Some []]\<rparr>)
       = Raised OSError client0 world0
   \<and> readline_loop config0 ''01'' 0 client0 (world0\<lparr>recvs := [Some ''ab\<newline>''], clock := [4001]\<rparr>)
       = Raised OSError client0 world0"
proof -
  note r = readline_run
  have a: "ok (client0\<lparr>ok := True, led := Some True\<rparr>)
      \<and> endswith_nl ''01ab\<newline>'' \<and> 1 < length ''01ab\<newline>''"
    by (rule readline_behaviour [THEN conjunct1, THEN mp, OF r])
  have h1: "\<not> endswith_nl ''01'' \<and> recvs (world0\<lparr>recvs := [Some []]\<rparr>) = Some [] # []"
    by (simp add: endswith_nl_def nl_def)
  have b: "readline_loop config0 ''01'' 0 client0 (world0\<lparr>recvs := [Some []]\<rparr>)
       = Raised OSError client0 (world0\<lparr>recvs := [Some []]\<rparr>\<lparr>recvs := []\<rparr>)"
    by (rule readline_behaviour [THEN c2, THEN c2, THEN c2, THEN conjunct1, THEN mp, OF h1])
  have h2: "\<not> endswith_nl ''01''
      \<and> recvs (world0\<lparr>recvs := [Some ''ab\<newline>''], clock := [4001]\<rparr>) = Some ''ab\<newline>'' # []
      \<and> ''ab\<newline>'' \<noteq> []
      \<and> clock (world0\<lparr>recvs := [Some ''ab\<newline>''], clock := [4001]\<rparr>) = 4001 # []"
    by (simp add: endswith_nl_def nl_def)
  have "readline_loop config0 ''01'' 0 client0 (world0\<lparr>recvs := [Some ''ab\<newline>''], clock := [4001]\<rparr>)
       = (if ticks_diff 4001 0 > to config0
          then Raised OSError client0
            (world0\<lparr>recvs := [Some ''ab\<newline>''], clock := [4001]\<rparr>\<lparr>recvs := [], clock := []\<rparr>)
          else readline_loop config0 (''01'' @ ''ab\<newline>'') 0 client0
            (world0\<lparr>recvs := [Some ''ab\<newline>''], clock := [4001]\<rparr>\<lparr>recvs := [], clock := []\<rparr>))"
    by (rule readline_behaviour [THEN c2, THEN c2, THEN c2, THEN c2, THEN conjunct1, THEN mp, OF h2])
  then have c: "readline_loop config0 ''01'' 0 client0
       (world0\<lparr>recvs := [Some ''ab\<newline>''], clock := [4001]\<rparr>) = Raised OSError client0 world0"
    by (simp add: ticks_diff_def config0_def world0_def)
  from b have b': "readline_loop config0 ''01'' 0 client0 (world0\<lparr>recvs := [Some []]\<rparr>)
       = Raised OSError client0 world0"
    by (simp add: world0_def)
  from r a b' c show ?thesis by (intro conjI) simp_all
qed

text \<open>
  The claim C7 says that every completed line sets the health flag. The timeout is
  4000 ms and the call begins at 0; the first read finds nothing and the clock reads
  4000; the second read brings a whole line and the clock then reads 4001: the call
  raises with the complete line in its buffer and the flag still false.
\<close>

theorem readline_late_counterexample:
  "priv_readline config0 (client0\<lparr>ok := False\<rparr>)
     (world0\<lparr>clock := [0, 4000, 4001], recvs := [None, Some ''01ab\<newline>''], sched := [id]\<rparr>)
   = Raised OSError (client0\<lparr>ok := False\<rparr>) (world0\<lparr>slept := [100]\<rparr>)
   \<and> endswith_nl ''01ab\<newline>''
   \<and> \<not> ok (client0\<lparr>ok := False\<rparr>)"
  apply (simp add: priv_readline_def ticks_ms_def world0_def config0_def)
  apply (subst readline_loop_nothing [where t = 4000 and f = id], simp add: endswith_nl_def, simp, simp, simp)
  apply (simp add: ticks_diff_def)
  apply (subst readline_loop_data [where x = "''01ab\<newline>''" and t = 4001], simp add: endswith_nl_def, simp, simp, simp)
  apply (simp add: ticks_diff_def endswith_nl_def nl_def)
  done

subsection \<open>What the frame reader does\<close>

lemma readline_set:
  "evread c = Some d \<Longrightarrow> readline c w = Returned d (c\<lparr>evread := None\<rparr>) w"
  by (simp add: readline_def await_evread.simps)

lemma sendack_whole:
  assumes "mid < 256" and "\<not> locked c" and "clock w = t0 # t1 # ts"
    and "\<not> ticks_diff t1 t0 > to cf" and "sends w = Accepts n # rs" and "3 \<le> n"
  shows "sendack cf mid c w =
     Returned () c (w\<lparr>clock := ts, sends := rs, wire := wire w @ [ack_line mid]\<rparr>)"
proof -
  have "length (ack_line mid) = 3" "ack_line mid \<noteq> []"
    using assms(1) by (simp_all add: ack_line_def length_fmt_02x)
  with assms show ?thesis
    by (simp add: sendack_def locked_send_whole [where ?t0.0 = t0 and ?t1.0 = t1 and n = n])
qed


text \<open>A new data frame whose payload is not text: the exception, and what was done before.\<close>

lemma reader_frame_undecodable:
  assumes "int16 (take 2 line) = Some mid" and "length line \<noteq> 3" and "evread c = None"
    and "decode (drop 2 line) = None"
    and "fst (isnew (int mid) (if mid = 0 then snd (isnew (- 1) (dupwin c)) else dupwin c))
           = Some True"
  shows "\<exists>c1. reader_frame c0 line c w
            = Inl (ValueError, c1, w\<lparr>calls := calls w @ [TaskSendack mid]\<rparr>)
     \<and> dupwin c1 = snd (isnew (int mid)
          (if mid = 0 then snd (isnew (- 1) (dupwin c)) else dupwin c))
     \<and> evread c1 = None"
  using assms by (cases "mid = 0") (simp_all add: reader_frame_def Let_def)

lemma decode_ab: "decode ''ab\<newline>'' = Some ''ab\<newline>''"
  by (simp add: decode_def follow_def)

lemma int16_00: "int16 ''00'' = Some 0"
  by (simp add: int16_def hexval_def)

text \<open>
  C2, as the code has it. A data frame that arrives while the inbound event still holds
  an unconsumed payload is dropped whole: the payload stays, no ACK task is created for
  its identifier, and the duplicate filter and the connect count are not touched; the
  reader goes on to the next line and the peer is left to send again.
\<close>

theorem frame_dropped_while_pending:
  assumes "int16 (take 2 line) = Some mid" and "length line \<noteq> 3" and "evread c = Some p"
  shows "reader_frame c0 line c w = Inr (c, w)"
  using assms by (simp add: reader_frame_def)

theorem frame_dropped_while_pending_witness:
  "int16 (take 2 ''02zz\<newline>'') = Some 2 \<and> length ''02zz\<newline>'' \<noteq> 3
   \<and> evread (client0\<lparr>evread := Some ''first\<newline>''\<rparr>) = Some ''first\<newline>''
   \<and> reader_frame 0 ''02zz\<newline>'' (client0\<lparr>evread := Some ''first\<newline>''\<rparr>) world0
       = Inr (client0\<lparr>evread := Some ''first\<newline>''\<rparr>, world0)"
proof -
  have h: "int16 (take 2 ''02zz\<newline>'') = Some 2" "length ''02zz\<newline>'' \<noteq> 3"
    "evread (client0\<lparr>evread := Some ''first\<newline>''\<rparr>) = Some ''first\<newline>''"
    by (simp_all add: int16_def hexval_def)
  from frame_dropped_while_pending [OF h] h show ?thesis by (intro conjI)
qed

text \<open>
  The claim C2 says that the dropped frame is still acknowledged and still entered in the
  duplicate filter. The frame \<open>01ab\<close> arrives while \<open>x\<close> is pending: no \<^verbatim>\<open>_sendack\<close> task is
  created and the filter has not seen the identifier 1.
\<close>

theorem frame_dropped_counterexample:
  "reader_frame 0 ''01ab\<newline>'' (client0\<lparr>evread := Some ''x\<newline>''\<rparr>) world0
     = Inr (client0\<lparr>evread := Some ''x\<newline>''\<rparr>, world0)
   \<and> TaskSendack 1 \<notin> set (calls world0)
   \<and> 1 \<notin> set (seen (dupwin (client0\<lparr>evread := Some ''x\<newline>''\<rparr>)))"
  by (simp add: reader_frame_def int16_def hexval_def client0_def world0_def)

lemma nl_string: "[nl] = ''\<newline>''"
  by (simp add: nl_def)

lemma ack_line_0: "ack_line 0 = ''00\<newline>''"
  by (simp add: ack_line_def fmt_02x_byte hexdigit_def nl_def)

text \<open>
  C3, as the code has it. When the reader receives the data frame \<open>00ab\<close> with its
  delimiter and no payload is pending, the whole duplicate window is cleared before the
  identifier 0 is entered in it, a \<^verbatim>\<open>_sendack\<close> task is created for the identifier 0, and
  the frame is published with the identifier stripped and the delimiter kept, so that
  \<^verbatim>\<open>readline\<close> returns \<open>ab\<close> followed by the newline. The ACK task sends the line \<open>00\<close>
  with its newline once it has the lock and the socket takes it.
\<close>

theorem reset_frame_delivered:
  assumes "evread c = None"
  shows "reader_frame c0 ''00ab\<newline>'' c w =
           Inr (c\<lparr>dupwin := (dupwin c)\<lparr>seen := take (capacity (dupwin c)) [0]\<rparr>,
                  evread := Some ''ab\<newline>'',
                  connects := (if c0 = connects c then connects c + 1 else connects c)\<rparr>,
                w\<lparr>calls := calls w @ [TaskSendack 0]\<rparr>)
     \<and> readline (c'\<lparr>evread := Some ''ab\<newline>''\<rparr>) w'
         = Returned ''ab\<newline>'' (c'\<lparr>evread := None\<rparr>) w'
     \<and> ack_line 0 = ''00\<newline>''
     \<and> (\<not> locked c' \<and> clock w' = t0 # t1 # ts \<and> \<not> ticks_diff t1 t0 > to cf
          \<and> sends w' = Accepts n # rs \<and> 3 \<le> n \<longrightarrow>
        sendack cf 0 c' w' =
          Returned () c' (w'\<lparr>clock := ts, sends := rs, wire := wire w' @ [''00\<newline>'']\<rparr>))"
proof (intro conjI impI)
  show "reader_frame c0 ''00ab\<newline>'' c w =
           Inr (c\<lparr>dupwin := (dupwin c)\<lparr>seen := take (capacity (dupwin c)) [0]\<rparr>,
                  evread := Some ''ab\<newline>'',
                  connects := (if c0 = connects c then connects c + 1 else connects c)\<rparr>,
                w\<lparr>calls := calls w @ [TaskSendack 0]\<rparr>)"
    using assms by (cases c) (simp add: reader_frame_def int16_00 isnew_def Let_def decode_ab)
  show "readline (c'\<lparr>evread := Some ''ab\<newline>''\<rparr>) w'
         = Returned ''ab\<newline>'' (c'\<lparr>evread := None\<rparr>) w'"
    by (simp add: readline_set)
  show "ack_line 0 = ''00\<newline>''" by (rule ack_line_0)
next
  assume "\<not> locked c' \<and> clock w' = t0 # t1 # ts \<and> \<not> ticks_diff t1 t0 > to cf
          \<and> sends w' = Accepts n # rs \<and> 3 \<le> n"
  then have "sendack cf 0 c' w' =
     Returned () c' (w'\<lparr>clock := ts, sends := rs, wire := wire w' @ [ack_line 0]\<rparr>)"
    by (intro sendack_whole [where ?t0.0 = t0 and ?t1.0 = t1 and n = n]) simp_all
  then show "sendack cf 0 c' w' =
          Returned () c' (w'\<lparr>clock := ts, sends := rs, wire := wire w' @ [''00\<newline>'']\<rparr>)"
    by (simp add: ack_line_0)
qed

text \<open>The window held 5 and 7 before the frame; afterwards it holds 0 alone.\<close>

theorem reset_frame_delivered_witness:
  "evread (client0\<lparr>dupwin := \<lparr>capacity = 32, seen = [5, 7]\<rparr>\<rparr>) = None
   \<and> reader_frame 0 ''00ab\<newline>'' (client0\<lparr>dupwin := \<lparr>capacity = 32, seen = [5, 7]\<rparr>\<rparr>) world0
       = Inr (client0\<lparr>evread := Some ''ab\<newline>'', connects := 1,
                dupwin := \<lparr>capacity = 32, seen = [0]\<rparr>\<rparr>,
              world0\<lparr>calls := [TaskSendack 0]\<rparr>)
   \<and> sendack config0 0 client0 (world0\<lparr>clock := [0, 1], sends := [Accepts 3]\<rparr>)
       = Returned () client0 (world0\<lparr>wire := [''00\<newline>'']\<rparr>)"
proof -
  let ?c = "client0\<lparr>dupwin := \<lparr>capacity = 32, seen = [5, 7]\<rparr>\<rparr>"
  let ?w = "world0\<lparr>clock := [0, 1], sends := [Accepts 3]\<rparr>"
  have h: "evread ?c = None" by (simp add: client0_def)
  note t = reset_frame_delivered [OF h, of 0 world0 client0 ?w 0 1 "[]" config0 3 "[]"]
  have a: "reader_frame 0 ''00ab\<newline>'' ?c world0
       = Inr (client0\<lparr>evread := Some ''ab\<newline>'', connects := 1,
                dupwin := \<lparr>capacity = 32, seen = [0]\<rparr>\<rparr>,
              world0\<lparr>calls := [TaskSendack 0]\<rparr>)"
    using t [THEN conjunct1] by (simp add: client0_def world0_def)
  have g: "\<not> locked client0 \<and> clock ?w = 0 # 1 # [] \<and> \<not> ticks_diff 1 0 > to config0
          \<and> sends ?w = Accepts 3 # [] \<and> (3::nat) \<le> 3"
    by (simp add: client0_def world0_def config0_def ticks_diff_def)
  have "sendack config0 0 client0 ?w =
          Returned () client0 (?w\<lparr>clock := [], sends := [], wire := wire ?w @ [''00\<newline>'']\<rparr>)"
    by (rule t [THEN c2, THEN c2, THEN c2, THEN mp, OF g])
  then have b: "sendack config0 0 client0 ?w = Returned () client0 (world0\<lparr>wire := [''00\<newline>'']\<rparr>)"
    by (simp add: world0_def)
  from h a b show ?thesis by (intro conjI)
qed

text \<open>
  The claim C3 says that \<^verbatim>\<open>readline\<close> returns the payload \<open>ab\<close>. What the reader publishes
  and \<^verbatim>\<open>readline\<close> returns is \<open>ab\<close> with the newline that ended the frame.
\<close>

theorem reset_frame_counterexample:
  "reader_frame 0 ''00ab\<newline>'' client0 world0
     = Inr (client0\<lparr>evread := Some ''ab\<newline>'', connects := 1,
              dupwin := \<lparr>capacity = 32, seen = [0]\<rparr>\<rparr>,
            world0\<lparr>calls := [TaskSendack 0]\<rparr>)
   \<and> readline (client0\<lparr>evread := Some ''ab\<newline>'', connects := 1,
              dupwin := \<lparr>capacity = 32, seen = [0]\<rparr>\<rparr>) (world0\<lparr>calls := [TaskSendack 0]\<rparr>)
     = Returned ''ab\<newline>'' (client0\<lparr>connects := 1, dupwin := \<lparr>capacity = 32, seen = [0]\<rparr>\<rparr>)
         (world0\<lparr>calls := [TaskSendack 0]\<rparr>)
   \<and> ''ab\<newline>'' \<noteq> ''ab''"
  by (simp add: reader_frame_def int16_00 isnew_def Let_def readline_set client0_def world0_def
      decode_ab)




subsection \<open>What the acknowledged writer does\<close>

lemma qos_poll_quiet:
  "quiet c w (client_of (qos_poll n mid c w)) (world_of (qos_poll n mid c w))"
proof (induction n arbitrary: c w)
  case 0
  show ?case by simp
next
  case (Suc n)
  show ?case
  proof (cases "suspend 100 c w")
    case None
    then show ?thesis by simp
  next
    case (Some a)
    obtain c1 w1 where a: "a = (c1, w1)" by (cases a) auto
    from quiet_trans [OF quiet_suspend [OF Some [unfolded a]] Suc.IH [of c1 w1]]
      quiet_suspend [OF Some [unfolded a]] Some a
    show ?thesis by simp
  qed
qed

lemma qos_poll_acked:
  "qos_poll n mid c w = Returned True c' w' \<Longrightarrow> mid \<notin> acks_pend c'"
  by (induction n arbitrary: c w) (auto split: option.splits if_splits)

lemma qos_poll_not_Raised: "qos_poll n mid c w \<noteq> Raised e c' w'"
  by (induction n arbitrary: c w) (auto split: option.splits if_splits)

lemma priv_send_Raised: "priv_send cf d c w = Raised e c' w' \<Longrightarrow> e = OSError"
  by (auto simp: priv_send_def split: option.splits dest: send_loop_Raised)

lemma locked_send_Raised: "locked_send cf d c w = Raised e c' w' \<Longrightarrow> e = OSError"
  by (auto simp: locked_send_def acquire_def wait_while_not_Raised
      split: outcome.splits dest: priv_send_Raised)

text \<open>The guarded send never raises: an \<^verbatim>\<open>OSError\<close> of the raw send is caught, and there
  is no other exception.\<close>

lemma priv_write_not_Raised: "priv_write cf line c w \<noteq> Raised e c' w'"
proof (induction cf line c w rule: priv_write.induct)
  case (1 cf line c w)
  show ?case
  proof (cases "wait_while (\<lambda>c. \<not> ok c) (tim_short cf) c w")
    case (Pending c1 w1)
    then show ?thesis by (subst priv_write.simps) simp
  next
    case (Raised e1 c1 w1)
    then show ?thesis by (simp add: wait_while_not_Raised)
  next
    case wt: (Returned u c1 w1)
    show ?thesis
    proof (cases "locked_send cf line c1 w1")
      case (Pending c2 w2)
      with wt show ?thesis by (subst priv_write.simps) simp
    next
      case (Returned u2 c2 w2)
      with wt show ?thesis by (subst priv_write.simps) simp
    next
      case ls: (Raised e2 c2 w2)
      then have e2: "e2 = OSError" by (rule locked_send_Raised)
      show ?thesis
      proof (cases "wait_while ok (tim_short cf) (c2\<lparr>evfail := Some ''writer fail''\<rparr>) w2")
        case (Pending c3 w3)
        with wt ls e2 show ?thesis by (subst priv_write.simps) simp
      next
        case (Raised e3 c3 w3)
        then show ?thesis by (simp add: wait_while_not_Raised)
      next
        case wd: (Returned u3 c3 w3)
        from "1.IH" [OF wt ls e2 wd] wt ls e2 wd show ?thesis
          by (subst priv_write.simps) simp
      qed
    qed
  qed
qed

text \<open>One round of \<^verbatim>\<open>_do_qos\<close>, by cases.\<close>

lemma do_qos_cases [consumes 1, case_names waiting polling acked resent unhealthy]:
  assumes "do_qos cf mid line c w = r"
  obtains
    (waiting) c1 w1 where "wait_while (\<lambda>c. \<not> ok c) (tim_short cf) c w = Pending c1 w1"
      "r = Pending c1 w1"
  | (polling) u c1 w1 c2 w2 where "wait_while (\<lambda>c. \<not> ok c) (tim_short cf) c w = Returned u c1 w1"
      "qos_poll 10 mid c1 w1 = Pending c2 w2" "r = Pending c2 w2"
  | (acked) u c1 w1 c2 w2 where "wait_while (\<lambda>c. \<not> ok c) (tim_short cf) c w = Returned u c1 w1"
      "qos_poll 10 mid c1 w1 = Returned True c2 w2" "r = Returned () c2 w2"
  | (resent) u c1 w1 c2 w2 where "wait_while (\<lambda>c. \<not> ok c) (tim_short cf) c w = Returned u c1 w1"
      "qos_poll 10 mid c1 w1 = Returned False c2 w2" "ok c2"
      "r = (case priv_write cf line c2 w2 of
              Pending c3 w3 \<Rightarrow> Pending c3 w3
            | Raised e c3 w3 \<Rightarrow> Raised e c3 w3
            | Returned u c3 w3 \<Rightarrow> do_qos cf mid line c3 w3)"
  | (unhealthy) u c1 w1 c2 w2 where "wait_while (\<lambda>c. \<not> ok c) (tim_short cf) c w = Returned u c1 w1"
      "qos_poll 10 mid c1 w1 = Returned False c2 w2" "\<not> ok c2"
      "r = do_qos cf mid line c2 w2"
proof (cases "wait_while (\<lambda>c. \<not> ok c) (tim_short cf) c w")
  case (Pending c1 w1)
  with assms have "r = Pending c1 w1" by (subst (asm) do_qos.simps) simp
  with Pending show ?thesis by (rule waiting)
next
  case (Raised e c1 w1)
  then show ?thesis by (simp add: wait_while_not_Raised)
next
  case wt: (Returned u c1 w1)
  show ?thesis
  proof (cases "qos_poll 10 mid c1 w1")
    case (Pending c2 w2)
    with wt assms have "r = Pending c2 w2" by (subst (asm) do_qos.simps) simp
    with wt Pending show ?thesis by (rule polling)
  next
    case (Raised e c2 w2)
    then show ?thesis by (simp add: qos_poll_not_Raised)
  next
    case qp: (Returned b c2 w2)
    show ?thesis
    proof (cases b)
      case True
      with wt qp assms have "r = Returned () c2 w2" by (subst (asm) do_qos.simps) simp
      with wt qp True show ?thesis by (auto intro: acked)
    next
      case False
      show ?thesis
      proof (cases "ok c2")
        case True
        with wt qp False assms
        have "r = (case priv_write cf line c2 w2 of
              Pending c3 w3 \<Rightarrow> Pending c3 w3
            | Raised e c3 w3 \<Rightarrow> Raised e c3 w3
            | Returned u c3 w3 \<Rightarrow> do_qos cf mid line c3 w3)"
          by (subst (asm) do_qos.simps) simp
        with wt qp False True show ?thesis by (auto intro: resent)
      next
        case nok: False
        with wt qp False assms have "r = do_qos cf mid line c2 w2"
          by (subst (asm) do_qos.simps) simp
        with wt qp False nok show ?thesis by (auto intro: unhealthy)
      qed
    qed
  qed
qed

text \<open>
  \<^verbatim>\<open>_do_qos\<close> returns only from the poll that found the identifier gone from the pending
  set, and raises nothing.
\<close>

lemma do_qos_props:
  "quiet c w (client_of (do_qos cf mid line c w)) (world_of (do_qos cf mid line c w))
   \<and> (\<forall>u c' w'. do_qos cf mid line c w = Returned u c' w' \<longrightarrow> mid \<notin> acks_pend c')
   \<and> (\<forall>e c' w'. do_qos cf mid line c w \<noteq> Raised e c' w')"
proof (induction "length (sched w)" arbitrary: c w rule: less_induct)
  case less
  let ?P = "\<lambda>c w r. quiet c w (client_of r) (world_of r)
     \<and> (\<forall>u c' w'. r = Returned u c' w' \<longrightarrow> mid \<notin> acks_pend c')
     \<and> (\<forall>e c' w'. r \<noteq> Raised e c' w')"
  obtain r where r: "do_qos cf mid line c w = r" by simp
  have wq: "quiet c w (client_of (wait_while (\<lambda>c. \<not> ok c) (tim_short cf) c w))
      (world_of (wait_while (\<lambda>c. \<not> ok c) (tim_short cf) c w))"
    by (rule wait_while_quiet)
  from r have "?P c w r"
  proof (cases rule: do_qos_cases)
    case (waiting c1 w1)
    with wq show ?thesis by simp
  next
    case (polling u c1 w1 c2 w2)
    from wq polling(1) have "quiet c w c1 w1" by simp
    moreover from qos_poll_quiet [of c1 w1 10 mid] polling(2) have "quiet c1 w1 c2 w2" by simp
    ultimately have "quiet c w c2 w2" by (rule quiet_trans)
    with polling(3) show ?thesis by simp
  next
    case (acked u c1 w1 c2 w2)
    from wq acked(1) have "quiet c w c1 w1" by simp
    moreover from qos_poll_quiet [of c1 w1 10 mid] acked(2) have "quiet c1 w1 c2 w2" by simp
    ultimately have "quiet c w c2 w2" by (rule quiet_trans)
    with acked(3) qos_poll_acked [OF acked(2)] show ?thesis by simp
  next
    case (resent u c1 w1 c2 w2)
    from wq resent(1) have q1: "quiet c w c1 w1" by simp
    from qos_poll_quiet [of c1 w1 10 mid] resent(2) have q2: "quiet c1 w1 c2 w2" by simp
    from qos_poll_sched [OF resent(2)] quiet_sched [OF q1]
    have lt: "length (sched w2) < length (sched w)" by simp
    have q12: "quiet c w c2 w2" using q1 q2 by (rule quiet_trans)
    have q3: "quiet c2 w2 (client_of (priv_write cf line c2 w2)) (world_of (priv_write cf line c2 w2))"
      by (rule priv_write_quiet)
    show ?thesis
    proof (cases "priv_write cf line c2 w2")
      case (Pending c3 w3)
      with resent(4) q3 q12 show ?thesis by (auto intro: quiet_trans)
    next
      case (Raised e c3 w3)
      then show ?thesis by (simp add: priv_write_not_Raised)
    next
      case (Returned u3 c3 w3)
      with q3 have q23: "quiet c2 w2 c3 w3" by simp
      with lt have "length (sched w3) < length (sched w)"
        by (auto dest: quiet_sched)
      from less [OF this, of c3] have "?P c3 w3 (do_qos cf mid line c3 w3)" .
      moreover have "quiet c w c3 w3" using q12 q23 by (rule quiet_trans)
      ultimately have "?P c w (do_qos cf mid line c3 w3)"
        by (auto intro: quiet_trans)
      with resent(4) Returned show ?thesis by simp
    qed
  next
    case (unhealthy u c1 w1 c2 w2)
    from wq unhealthy(1) have q1: "quiet c w c1 w1" by simp
    from qos_poll_quiet [of c1 w1 10 mid] unhealthy(2) have q2: "quiet c1 w1 c2 w2" by simp
    from qos_poll_sched [OF unhealthy(2)] quiet_sched [OF q1]
    have lt: "length (sched w2) < length (sched w)" by simp
    from less [OF lt, of c2] have "?P c2 w2 (do_qos cf mid line c2 w2)" .
    moreover have "quiet c w c2 w2" using q1 q2 by (rule quiet_trans)
    ultimately have "?P c w (do_qos cf mid line c2 w2)"
      by (auto intro: quiet_trans)
    with unhealthy(4) show ?thesis by simp
  qed
  with r show ?case by simp
qed

lemma indifferent_pending: "indifferent (\<lambda>c. m \<in> acks_pend c)"
  by (simp add: indifferent_def)

text \<open>The state after the first two statements of \<^verbatim>\<open>write\<close>.\<close>

lemma app_write_unfold:
  "app_write cf buf qos c w =
     (case priv_write cf (serialize (getmid c) buf)
             (c\<lparr>getmid := snd (gmid_next (getmid c)),
                acks_pend := insert (getmid c) (acks_pend c)\<rparr>) w of
        Pending c2 w2 \<Rightarrow> Pending c2 w2
      | Raised e c2 w2 \<Rightarrow> Raised e c2 w2
      | Returned u c2 w2 \<Rightarrow>
          if qos then do_qos cf (getmid c) (serialize (getmid c) buf) c2 w2 else Returned () c2 w2)"
  by (simp add: app_write_def Let_def gmid_next_def)

lemma app_write_props:
  "quiet (c\<lparr>getmid := snd (gmid_next (getmid c)), acks_pend := insert (getmid c) (acks_pend c)\<rparr>) w
     (client_of (app_write cf buf qos c w)) (world_of (app_write cf buf qos c w))
   \<and> (\<forall>u c' w'. app_write cf buf True c w = Returned u c' w' \<longrightarrow> getmid c \<notin> acks_pend c')
   \<and> (\<forall>e c' w'. app_write cf buf qos c w \<noteq> Raised e c' w')"
proof -
  let ?c1 = "c\<lparr>getmid := snd (gmid_next (getmid c)), acks_pend := insert (getmid c) (acks_pend c)\<rparr>"
  let ?line = "serialize (getmid c) buf"
  have q1: "quiet ?c1 w (client_of (priv_write cf ?line ?c1 w)) (world_of (priv_write cf ?line ?c1 w))"
    by (rule priv_write_quiet)
  show ?thesis
  proof (cases "priv_write cf ?line ?c1 w")
    case (Pending c2 w2)
    with q1 show ?thesis by (simp add: app_write_unfold)
  next
    case (Raised e c2 w2)
    then show ?thesis by (simp add: priv_write_not_Raised)
  next
    case (Returned u c2 w2)
    with q1 have q: "quiet ?c1 w c2 w2" by simp
    from do_qos_props [of c2 w2 cf "getmid c" ?line] q Returned
    show ?thesis
      by (auto simp: app_write_unfold intro: quiet_trans)
  qed
qed

text \<open>What the supervisor and the reader do to the session while a writer sleeps: the
  link is declared down, a first line arrives on a new connection, the ACK of an
  identifier is read.\<close>

definition link_down :: "client \<Rightarrow> client" where
  "link_down c = c\<lparr>ok := False\<rparr>"

definition link_up :: "client \<Rightarrow> client" where
  "link_up c = c\<lparr>ok := True\<rparr>"

definition ack_read :: "nat \<Rightarrow> client \<Rightarrow> client" where
  "ack_read m c = c\<lparr>acks_pend := acks_pend c - {m}\<rparr>"

lemma locked_send_fails:
  assumes "\<not> locked c" and "d \<noteq> []" and "clock w = t0 # ts" and "sends w = SendFails # rs"
  shows "locked_send cf d c w = Raised OSError c (w\<lparr>clock := ts, sends := rs\<rparr>)"
proof -
  have "priv_send cf d (c\<lparr>locked := True\<rparr>) w
      = Raised OSError (c\<lparr>locked := True\<rparr>) (w\<lparr>clock := ts, sends := rs\<rparr>)"
    using assms(2-4) by (simp add: priv_send_def ticks_ms_def) (subst send_loop.simps, simp)
  with assms(1) show ?thesis
    by (simp add: locked_send_def acquire_free release_acquired)
qed

lemma priv_write_fails:
  assumes "ok c" and "\<not> locked c" and "d \<noteq> []" and "clock w = t0 # ts"
    and "sends w = SendFails # rs"
  shows "priv_write cf d c w =
     (case wait_while ok (tim_short cf) (c\<lparr>evfail := Some ''writer fail''\<rparr>)
             (w\<lparr>clock := ts, sends := rs\<rparr>) of
        Pending c3 w3 \<Rightarrow> Pending c3 w3
      | Raised e c3 w3 \<Rightarrow> Raised e c3 w3
      | Returned u c3 w3 \<Rightarrow> priv_write cf d c3 w3)"
  using assms
  by (subst priv_write.simps)
    (simp add: wait_while_skip locked_send_fails [where ?t0.0 = t0 and ts = ts and rs = rs])

lemma priv_write_wait:
  assumes "\<not> ok c" and "sched w = e # es"
  shows "priv_write cf d c w =
     priv_write cf d (e c) (w\<lparr>sched := es, slept := slept w @ [tim_short cf]\<rparr>)"
  using assms by (subst (1 2) priv_write.simps) (simp add: wait_while_step [where e = e and es = es])

lemma do_qos_wait:
  assumes "\<not> ok c" and "sched w = e # es"
  shows "do_qos cf mid d c w =
     do_qos cf mid d (e c) (w\<lparr>sched := es, slept := slept w @ [tim_short cf]\<rparr>)"
  using assms by (subst (1 2) do_qos.simps) (simp add: wait_while_step [where e = e and es = es])

lemma qos_poll_step:
  "sched w = e # es \<Longrightarrow>
     qos_poll (Suc n) mid c w =
       (if mid \<notin> acks_pend (e c)
        then Returned True (e c) (w\<lparr>sched := es, slept := slept w @ [100]\<rparr>)
        else qos_poll n mid (e c) (w\<lparr>sched := es, slept := slept w @ [100]\<rparr>))"
  by (simp add: suspend_def)

lemma do_qos_acked:
  "ok c \<Longrightarrow> qos_poll 10 mid c w = Returned True c2 w2 \<Longrightarrow>
     do_qos cf mid line c w = Returned () c2 w2"
  by (subst do_qos.simps) (simp add: wait_while_skip)

lemma serialize_1_ab: "serialize (Suc 0) ''ab'' = ''01ab\<newline>''"
  by (simp add: serialize_def endswith_nl_def nl_def fmt_02x_byte hexdigit_def)

lemma app_write_run: "app_write config0 ''ab'' True client0
   (world0\<lparr>clock := [0, 10, 11], sends := [SendFails, Accepts 5],
      sched := [link_down, link_up, id, ack_read 1]\<rparr>)
  = Returned () (client0\<lparr>getmid := 2, evfail := Some ''writer fail''\<rparr>)
      (world0\<lparr>wire := [''01ab\<newline>''], slept := [400, 400, 100, 100]\<rparr>)"
proof -
  let ?line = "''01ab\<newline>''"
  let ?c1 = "client0\<lparr>getmid := 2, acks_pend := {1}\<rparr>"
  let ?w0 = "world0\<lparr>clock := [0, 10, 11], sends := [SendFails, Accepts 5],
      sched := [link_down, link_up, id, ack_read 1]\<rparr>"
  let ?c2 = "?c1\<lparr>evfail := Some ''writer fail''\<rparr>"
  let ?w1 = "world0\<lparr>clock := [10, 11], sends := [Accepts 5],
      sched := [link_down, link_up, id, ack_read 1]\<rparr>"
  let ?w2 = "world0\<lparr>clock := [10, 11], sends := [Accepts 5],
      sched := [link_up, id, ack_read 1], slept := [400]\<rparr>"
  let ?w3 = "world0\<lparr>clock := [10, 11], sends := [Accepts 5],
      sched := [id, ack_read 1], slept := [400, 400]\<rparr>"
  let ?w4 = "world0\<lparr>sched := [id, ack_read 1], slept := [400, 400], wire := [?line]\<rparr>"
  have a: "priv_write config0 ?line ?c1 ?w0 = priv_write config0 ?line (?c2\<lparr>ok := False\<rparr>) ?w2"
    by (subst priv_write_fails [where ?t0.0 = 0 and ts = "[10, 11]" and rs = "[Accepts 5]"])
      (simp_all add: client0_def world0_def config0_def tim_short_def link_down_def
        wait_while_step [where e = link_down and es = "[link_up, id, ack_read 1]"]
        wait_while_skip)
  have b: "priv_write config0 ?line (?c2\<lparr>ok := False\<rparr>) ?w2 = priv_write config0 ?line ?c2 ?w3"
    by (subst priv_write_wait [where e = link_up and es = "[id, ack_read 1]"])
      (simp_all add: client0_def world0_def config0_def tim_short_def link_up_def)
  have c: "priv_write config0 ?line ?c2 ?w3 = Returned () ?c2 ?w4"
    by (subst priv_write_whole [where ?t0.0 = 10 and ?t1.0 = 11 and ts = "[]" and n = 5 and rs = "[]"])
      (simp_all add: client0_def world0_def config0_def ticks_diff_def)
  have p: "qos_poll 10 1 ?c2 ?w4
      = Returned True (client0\<lparr>getmid := 2, evfail := Some ''writer fail''\<rparr>)
          (world0\<lparr>wire := [?line], slept := [400, 400, 100, 100]\<rparr>)"
  proof -
    have "qos_poll 10 1 ?c2 ?w4 = qos_poll (Suc 9) 1 ?c2 ?w4" by simp
    also have "\<dots> = qos_poll (Suc 8) 1 ?c2
        (world0\<lparr>sched := [ack_read 1], slept := [400, 400, 100], wire := [?line]\<rparr>)"
      by (subst qos_poll_step [where e = id and es = "[ack_read 1]"])
        (simp_all add: client0_def world0_def del: qos_poll.simps)
    also have "\<dots> = Returned True (client0\<lparr>getmid := 2, evfail := Some ''writer fail''\<rparr>)
          (world0\<lparr>wire := [?line], slept := [400, 400, 100, 100]\<rparr>)"
      by (subst qos_poll_step [where e = "ack_read 1" and es = "[]"])
        (simp_all add: client0_def world0_def ack_read_def del: qos_poll.simps)
    finally show ?thesis .
  qed
  have d: "do_qos config0 1 ?line ?c2 ?w4
      = Returned () (client0\<lparr>getmid := 2, evfail := Some ''writer fail''\<rparr>)
          (world0\<lparr>wire := [?line], slept := [400, 400, 100, 100]\<rparr>)"
    by (rule do_qos_acked [OF _ p]) (simp add: client0_def)
  have pw: "priv_write config0 ?line ?c1 ?w0 = Returned () ?c2 ?w4"
    by (simp only: a b c)
  have e1: "client0\<lparr>getmid := snd (gmid_next 1),
      acks_pend := insert 1 (acks_pend client0)\<rparr> = ?c1"
    by (simp add: client0_def gmid_next_def)
  have e2: "serialize 1 ''ab'' = ?line"
    by (simp add: serialize_1_ab)
  have e3: "getmid client0 = 1"
    by (simp add: client0_def)
  show ?thesis
    by (simp only: app_write_unfold e1 e2 e3 pw outcome.case if_True d)
qed


text \<open>
  C1. Every call \<^verbatim>\<open>write(payload, qos=True)\<close>, against any behaviour of the socket, the
  clock and the other tasks: when it returns, the identifier it generated is absent from
  the pending-ACK set, the poll that found it absent being its last step; it raises
  nothing; and for as long as no other task removes the identifier from the set it does
  not return, whatever happens to the link meanwhile.
\<close>

theorem qos_write_returns_acked:
  "(app_write cf buf True c w = Returned u c' w' \<longrightarrow> getmid c \<notin> acks_pend c')
   \<and> app_write cf buf True c w \<noteq> Raised e c' w'
   \<and> ((\<forall>f\<in>set (sched w). \<forall>x. getmid c \<in> acks_pend x \<longrightarrow> getmid c \<in> acks_pend (f x)) \<longrightarrow>
        (\<exists>c2 w2. app_write cf buf True c w = Pending c2 w2 \<and> getmid c \<in> acks_pend c2))"
proof (intro conjI impI)
  assume "app_write cf buf True c w = Returned u c' w'"
  with app_write_props [of c w cf buf True] show "getmid c \<notin> acks_pend c'" by blast
next
  from app_write_props [of c w cf buf True] show "app_write cf buf True c w \<noteq> Raised e c' w'"
    by blast
next
  assume k: "\<forall>f\<in>set (sched w). \<forall>x. getmid c \<in> acks_pend x \<longrightarrow> getmid c \<in> acks_pend (f x)"
  let ?c1 = "c\<lparr>getmid := snd (gmid_next (getmid c)), acks_pend := insert (getmid c) (acks_pend c)\<rparr>"
  let ?r = "app_write cf buf True c w"
  from app_write_props [of c w cf buf True]
  have q: "quiet ?c1 w (client_of ?r) (world_of ?r)"
    and ret: "\<forall>u c' w'. ?r = Returned u c' w' \<longrightarrow> getmid c \<notin> acks_pend c'"
    and nr: "\<forall>e c' w'. ?r \<noteq> Raised e c' w'"
    by blast+
  from k have "keeps (\<lambda>x. getmid c \<in> acks_pend x) w" by (simp add: keeps_def)
  from quiet_keeps [OF q indifferent_pending this] have p: "getmid c \<in> acks_pend (client_of ?r)"
    by simp
  show "\<exists>c2 w2. ?r = Pending c2 w2 \<and> getmid c \<in> acks_pend c2"
  proof (cases ?r)
    case (Returned u2 c2 w2)
    with ret p show ?thesis by auto
  next
    case (Raised e2 c2 w2)
    with nr show ?thesis by auto
  next
    case (Pending c2 w2)
    with p show ?thesis by auto
  qed
qed

text \<open>
  The first send fails, the link goes down and comes back, the line is sent again and
  the ACK arrives at the second poll: the call returns with the identifier 1 acknowledged.
  With a schedule that never acknowledges, the call is still pending at its end.
\<close>

theorem qos_write_returns_acked_witness:
  "app_write config0 ''ab'' True client0
     (world0\<lparr>clock := [0, 10, 11], sends := [SendFails, Accepts 5],
        sched := [link_down, link_up, id, ack_read 1]\<rparr>)
    = Returned () (client0\<lparr>getmid := 2, evfail := Some ''writer fail''\<rparr>)
        (world0\<lparr>wire := [''01ab\<newline>''], slept := [400, 400, 100, 100]\<rparr>)
   \<and> getmid client0 \<notin> acks_pend (client0\<lparr>getmid := 2, evfail := Some ''writer fail''\<rparr>)
   \<and> (\<exists>c2 w2. app_write config0 ''ab'' True client0
          (world0\<lparr>clock := [0, 10, 11], sends := [SendFails, Accepts 5],
             sched := [link_down, link_up, id, id]\<rparr>) = Pending c2 w2
        \<and> getmid client0 \<in> acks_pend c2)"
proof -
  note r = app_write_run
  have a: "getmid client0 \<notin> acks_pend (client0\<lparr>getmid := 2, evfail := Some ''writer fail''\<rparr>)"
    by (rule qos_write_returns_acked [THEN conjunct1, THEN mp, OF r])
  let ?w = "world0\<lparr>clock := [0, 10, 11], sends := [SendFails, Accepts 5],
             sched := [link_down, link_up, id, id]\<rparr>"
  have k: "\<forall>f\<in>set (sched ?w). \<forall>x. getmid client0 \<in> acks_pend x \<longrightarrow> getmid client0 \<in> acks_pend (f x)"
    by (simp add: link_down_def link_up_def)
  have b: "\<exists>c2 w2. app_write config0 ''ab'' True client0 ?w = Pending c2 w2
        \<and> getmid client0 \<in> acks_pend c2"
    by (rule qos_write_returns_acked [THEN conjunct2, THEN conjunct2, THEN mp, OF k])
  from r a b show ?thesis by (intro conjI)
qed

subsection \<open>The rounds of retransmission\<close>

lemma qos_poll_log:
  "qos_poll n mid c w = Returned b c2 w2 \<Longrightarrow>
     wire w2 = wire w \<and> sends w2 = sends w \<and> clock w2 = clock w
     \<and> (\<exists>k\<le>n. slept w2 = slept w @ replicate k 100
           \<and> (b \<longrightarrow> 0 < k \<and> mid \<notin> acks_pend c2)
           \<and> (\<not> b \<longrightarrow> k = n \<and> (0 < n \<longrightarrow> mid \<in> acks_pend c2)))"
proof (induction n arbitrary: c w)
  case 0
  then show ?case by auto
next
  case (Suc n)
  from Suc.prems obtain c1 w1 where
    s: "suspend 100 c w = Some (c1, w1)" and
    r: "(mid \<notin> acks_pend c1 \<and> b \<and> c2 = c1 \<and> w2 = w1)
        \<or> (mid \<in> acks_pend c1 \<and> qos_poll n mid c1 w1 = Returned b c2 w2)"
    by (auto split: option.splits if_splits)
  from suspend_fields [OF s] have f: "wire w1 = wire w" "sends w1 = sends w" "clock w1 = clock w"
    "slept w1 = slept w @ [100]" by simp_all
  from r show ?case
  proof
    assume "mid \<notin> acks_pend c1 \<and> b \<and> c2 = c1 \<and> w2 = w1"
    with f show ?thesis by (auto intro!: exI [of _ 1])
  next
    assume a: "mid \<in> acks_pend c1 \<and> qos_poll n mid c1 w1 = Returned b c2 w2"
    from Suc.IH [of c1 w1] a obtain k where k: "k \<le> n" "slept w2 = slept w1 @ replicate k 100"
      "b \<longrightarrow> 0 < k \<and> mid \<notin> acks_pend c2" "\<not> b \<longrightarrow> k = n \<and> (0 < n \<longrightarrow> mid \<in> acks_pend c2)"
      and g: "wire w2 = wire w1" "sends w2 = sends w1" "clock w2 = clock w1"
      by auto
    have "slept w2 = slept w @ replicate (Suc k) 100"
      using k(2) f(4) by (simp add: replicate_app_Cons_same)
    moreover have "\<not> b \<longrightarrow> mid \<in> acks_pend c2"
    proof
      assume nb: "\<not> b"
      show "mid \<in> acks_pend c2"
      proof (cases n)
        case 0
        with a nb show ?thesis by auto
      next
        case (Suc m)
        with k(4) nb show ?thesis by simp
      qed
    qed
    ultimately show ?thesis
      using k(1,3,4) f g by (auto intro!: exI [of _ "Suc k"])
  qed
qed

text \<open>Polls during which the other tasks leave the session alone.\<close>

definition idle :: "client \<Rightarrow> client" where
  "idle c = c"

lemma qos_poll_idle:
  "mid \<in> acks_pend c \<Longrightarrow> sched w = replicate n idle @ fs \<Longrightarrow>
     qos_poll n mid c w = Returned False c (w\<lparr>sched := fs, slept := slept w @ replicate n 100\<rparr>)"
proof (induction n arbitrary: w)
  case 0
  then show ?case by simp
next
  case (Suc n)
  let ?w1 = "w\<lparr>sched := replicate n idle @ fs, slept := slept w @ [100]\<rparr>"
  have ic: "idle c = c" by (simp add: idle_def)
  from Suc.prems have "qos_poll (Suc n) mid c w = qos_poll n mid c ?w1"
    by (simp add: suspend_def ic)
  also have "\<dots> = Returned False c (?w1\<lparr>sched := fs, slept := slept ?w1 @ replicate n 100\<rparr>)"
    using Suc.prems(1) by (intro Suc.IH) simp_all
  finally show ?case by (simp add: replicate_app_Cons_same)
qed

lemma qos_poll_ack:
  "mid \<in> acks_pend c \<Longrightarrow> j < n \<Longrightarrow> sched w = replicate j idle @ ack_read mid # fs \<Longrightarrow>
     qos_poll n mid c w =
       Returned True (ack_read mid c) (w\<lparr>sched := fs, slept := slept w @ replicate (Suc j) 100\<rparr>)"
proof (induction j arbitrary: n w)
  case 0
  then obtain m where "n = Suc m" by (cases n) auto
  with 0 show ?case by (simp add: suspend_def ack_read_def)
next
  case (Suc j)
  then obtain m where n: "n = Suc m" "j < m" by (cases n) auto
  let ?w1 = "w\<lparr>sched := replicate j idle @ ack_read mid # fs, slept := slept w @ [100]\<rparr>"
  have ic: "idle c = c" by (simp add: idle_def)
  from Suc.prems n have "qos_poll n mid c w = qos_poll m mid c ?w1"
    by (simp add: suspend_def ic)
  also have "\<dots> = Returned True (ack_read mid c)
      (?w1\<lparr>sched := fs, slept := slept ?w1 @ replicate (Suc j) 100\<rparr>)"
    using Suc.prems(1) n(2) by (intro Suc.IH) simp_all
  finally show ?case by (simp add: replicate_app_Cons_same)
qed


lemma do_qos_expired:
  "ok c \<Longrightarrow> qos_poll 10 mid c w = Returned False c2 w2 \<Longrightarrow>
     do_qos cf mid line c w =
       (if ok c2 then
          (case priv_write cf line c2 w2 of
             Pending c3 w3 \<Rightarrow> Pending c3 w3
           | Raised e c3 w3 \<Rightarrow> Raised e c3 w3
           | Returned u c3 w3 \<Rightarrow> do_qos cf mid line c3 w3)
        else do_qos cf mid line c2 w2)"
  by (subst do_qos.simps) (simp add: wait_while_skip)

text \<open>
  The link stays healthy, the socket takes the line whole each time and the other tasks
  leave the session alone until, after \<open>k\<close> full rounds and \<open>j\<close> more polls, the ACK is read.
\<close>

lemma do_qos_rounds:
  assumes "ok c" and "\<not> locked c" and "mid \<in> acks_pend c" and "line \<noteq> []" and "0 \<le> to cf"
    and "j < 10"
  shows "sched w = replicate (10 * k + j) idle @ ack_read mid # fs \<Longrightarrow>
     sends w = replicate k (Accepts (length line)) @ rs \<Longrightarrow>
     clock w = replicate (2 * k) t @ ts \<Longrightarrow>
     do_qos cf mid line c w =
       Returned () (ack_read mid c)
         (w\<lparr>sched := fs, sends := rs, clock := ts, wire := wire w @ replicate k line,
            slept := slept w @ replicate (10 * k + j + 1) 100\<rparr>)"
proof (induction k arbitrary: w)
  case 0
  from qos_poll_ack [OF assms(3,6), of w fs] 0
  have "qos_poll 10 mid c w =
      Returned True (ack_read mid c) (w\<lparr>sched := fs, slept := slept w @ replicate (Suc j) 100\<rparr>)"
    by simp
  from do_qos_acked [OF assms(1) this, of cf line] 0 show ?case by simp
next
  case (Suc k)
  let ?rest = "replicate (10 * k + j) idle @ ack_read mid # fs"
  let ?w1 = "w\<lparr>sched := ?rest, slept := slept w @ replicate 10 100\<rparr>"
  let ?w2 = "?w1\<lparr>clock := replicate (2 * k) t @ ts,
      sends := replicate k (Accepts (length line)) @ rs, wire := wire ?w1 @ [line]\<rparr>"
  have "sched w = replicate 10 idle @ ?rest"
    using Suc.prems(1) by (simp add: replicate_add [symmetric] del: replicate_add)
  from qos_poll_idle [OF assms(3) this]
  have p: "qos_poll 10 mid c w = Returned False c ?w1" .
  have pw: "priv_write cf line c ?w1 = Returned () c ?w2"
    using assms(1,2,4,5) Suc.prems(2,3)
    by (intro priv_write_whole [where ?t0.0 = t and ?t1.0 = t and n = "length line"])
      (simp_all add: ticks_diff_def)
  have "do_qos cf mid line c w = do_qos cf mid line c ?w2"
    using do_qos_expired [OF assms(1) p, of cf line] assms(1) pw by simp
  also have "\<dots> = Returned () (ack_read mid c)
         (?w2\<lparr>sched := fs, sends := rs, clock := ts, wire := wire ?w2 @ replicate k line,
            slept := slept ?w2 @ replicate (10 * k + j + 1) 100\<rparr>)"
    by (rule Suc.IH) simp_all
  also have "?w2\<lparr>sched := fs, sends := rs, clock := ts, wire := wire ?w2 @ replicate k line,
            slept := slept ?w2 @ replicate (10 * k + j + 1) 100\<rparr>
      = w\<lparr>sched := fs, sends := rs, clock := ts, wire := wire w @ replicate (Suc k) line,
            slept := slept w @ replicate (10 * Suc k + j + 1) 100\<rparr>"
  proof -
    have "10 * Suc k + j + 1 = 10 + (10 * k + j + 1)" by simp
    then have "replicate (10 * Suc k + j + 1) (100::int)
        = replicate 10 100 @ replicate (10 * k + j + 1) 100"
      by (simp only: replicate_add)
    then show ?thesis by simp
  qed
  finally show ?case .
qed


text \<open>
  C5. \<^verbatim>\<open>_do_qos\<close> proceeds in rounds. It first waits, sleeping a tenth of the timeout at a
  time, until the link is healthy. It then polls up to 10 times, sleeping 100 ms before
  each look at the pending-ACK set and sending nothing; as soon as the identifier has left
  the set it returns. When all 10 polls found the identifier pending and the link is
  still healthy, the same line goes through the guarded send again and the cycle
  repeats; when the link is no longer healthy the cycle repeats without a send. On a
  link that stays healthy, with a socket that takes the line whole and no ACK until the
  poll \<open>j + 1\<close> of round \<open>k + 1\<close>, the line is put on the wire exactly \<open>k\<close> times, after
  \<open>10 k + j + 1\<close> sleeps of 100 ms in all, and nothing is sent after the ACK.
\<close>

theorem qos_rounds:
  "(\<not> ok c \<and> sched w = f # fs \<longrightarrow>
      do_qos cf mid line c w =
        do_qos cf mid line (f c) (w\<lparr>sched := fs, slept := slept w @ [tim_short cf]\<rparr>))
   \<and> (qos_poll 10 mid c w = Returned b c2 w2 \<longrightarrow>
        wire w2 = wire w \<and> sends w2 = sends w
        \<and> (\<exists>n\<le>10. slept w2 = slept w @ replicate n 100
              \<and> (b \<longrightarrow> 0 < n \<and> mid \<notin> acks_pend c2)
              \<and> (\<not> b \<longrightarrow> n = 10 \<and> mid \<in> acks_pend c2)))
   \<and> (ok c \<and> qos_poll 10 mid c w = Returned True c2 w2 \<longrightarrow>
        do_qos cf mid line c w = Returned () c2 w2)
   \<and> (ok c \<and> qos_poll 10 mid c w = Returned False c2 w2 \<longrightarrow>
        do_qos cf mid line c w =
          (if ok c2 then
             (case priv_write cf line c2 w2 of
                Pending c3 w3 \<Rightarrow> Pending c3 w3
              | Raised e c3 w3 \<Rightarrow> Raised e c3 w3
              | Returned u c3 w3 \<Rightarrow> do_qos cf mid line c3 w3)
           else do_qos cf mid line c2 w2))
   \<and> (ok c \<and> \<not> locked c \<and> mid \<in> acks_pend c \<and> line \<noteq> [] \<and> 0 \<le> to cf \<and> j < 10
        \<and> sched w = replicate (10 * k + j) idle @ ack_read mid # fs
        \<and> sends w = replicate k (Accepts (length line)) @ rs
        \<and> clock w = replicate (2 * k) t @ ts \<longrightarrow>
        do_qos cf mid line c w =
          Returned () (ack_read mid c)
            (w\<lparr>sched := fs, sends := rs, clock := ts, wire := wire w @ replicate k line,
               slept := slept w @ replicate (10 * k + j + 1) 100\<rparr>))"
proof (intro conjI impI)
  assume "\<not> ok c \<and> sched w = f # fs"
  then show "do_qos cf mid line c w =
        do_qos cf mid line (f c) (w\<lparr>sched := fs, slept := slept w @ [tim_short cf]\<rparr>)"
    by (simp add: do_qos_wait [where e = f and es = fs])
next
  assume p: "qos_poll 10 mid c w = Returned b c2 w2"
  from qos_poll_log [OF p] show "wire w2 = wire w" and "sends w2 = sends w"
    and "\<exists>n\<le>10. slept w2 = slept w @ replicate n 100
              \<and> (b \<longrightarrow> 0 < n \<and> mid \<notin> acks_pend c2)
              \<and> (\<not> b \<longrightarrow> n = 10 \<and> mid \<in> acks_pend c2)"
    by auto
next
  assume "ok c \<and> qos_poll 10 mid c w = Returned True c2 w2"
  then show "do_qos cf mid line c w = Returned () c2 w2"
    by (simp add: do_qos_acked)
next
  assume "ok c \<and> qos_poll 10 mid c w = Returned False c2 w2"
  then show "do_qos cf mid line c w =
          (if ok c2 then
             (case priv_write cf line c2 w2 of
                Pending c3 w3 \<Rightarrow> Pending c3 w3
              | Raised e c3 w3 \<Rightarrow> Raised e c3 w3
              | Returned u c3 w3 \<Rightarrow> do_qos cf mid line c3 w3)
           else do_qos cf mid line c2 w2)"
    by (intro do_qos_expired) simp_all
next
  assume "ok c \<and> \<not> locked c \<and> mid \<in> acks_pend c \<and> line \<noteq> [] \<and> 0 \<le> to cf \<and> j < 10
        \<and> sched w = replicate (10 * k + j) idle @ ack_read mid # fs
        \<and> sends w = replicate k (Accepts (length line)) @ rs
        \<and> clock w = replicate (2 * k) t @ ts"
  then show "do_qos cf mid line c w =
          Returned () (ack_read mid c)
            (w\<lparr>sched := fs, sends := rs, clock := ts, wire := wire w @ replicate k line,
               slept := slept w @ replicate (10 * k + j + 1) 100\<rparr>)"
    by (intro do_qos_rounds [where t = t]) simp_all
qed

text \<open>
  The scenario of the spec: the ACK of the message 01 is withheld for two rounds and
  arrives at the fourth poll of the third; the line has gone out twice more.
\<close>

theorem qos_rounds_witness:
  "do_qos config0 1 ''01ab\<newline>'' (client0\<lparr>acks_pend := {1}\<rparr>)
     (world0\<lparr>sched := replicate 23 idle @ [ack_read 1],
        sends := [Accepts 5, Accepts 5], clock := [7, 7, 7, 7]\<rparr>)
   = Returned () client0
      (world0\<lparr>wire := [''01ab\<newline>'', ''01ab\<newline>''], slept := replicate 24 100\<rparr>)"
proof -
  let ?c = "client0\<lparr>acks_pend := {1}\<rparr>"
  let ?w = "world0\<lparr>sched := replicate 23 idle @ [ack_read 1],
        sends := [Accepts 5, Accepts 5], clock := [7, 7, 7, 7]\<rparr>"
  have h: "ok ?c \<and> \<not> locked ?c \<and> 1 \<in> acks_pend ?c \<and> ''01ab\<newline>'' \<noteq> [] \<and> 0 \<le> to config0
        \<and> (3::nat) < 10
        \<and> sched ?w = replicate (10 * 2 + 3) idle @ ack_read 1 # []
        \<and> sends ?w = replicate 2 (Accepts (length ''01ab\<newline>'')) @ []
        \<and> clock ?w = replicate (2 * 2) 7 @ []"
    by (simp add: client0_def world0_def config0_def eval_nat_numeral)
  have "do_qos config0 1 ''01ab\<newline>'' ?c ?w =
          Returned () (ack_read 1 ?c)
            (?w\<lparr>sched := [], sends := [], clock := [], wire := wire ?w @ replicate 2 ''01ab\<newline>'',
               slept := slept ?w @ replicate (10 * 2 + 3 + 1) 100\<rparr>)"
    by (rule qos_rounds [THEN conjunct2, THEN conjunct2, THEN conjunct2, THEN conjunct2,
          THEN mp, OF h])
  moreover have "ack_read 1 ?c = client0"
    by (simp add: ack_read_def client0_def)
  moreover have "?w\<lparr>sched := [], sends := [], clock := [], wire := wire ?w @ replicate 2 ''01ab\<newline>'',
               slept := slept ?w @ replicate (10 * 2 + 3 + 1) 100\<rparr>
      = world0\<lparr>wire := [''01ab\<newline>'', ''01ab\<newline>''], slept := replicate 24 100\<rparr>"
    by (simp add: world0_def eval_nat_numeral)
  ultimately show ?thesis by simp
qed

subsection \<open>The pending-ACK set\<close>

text \<open>
  The two statements of the source that change the set: \<^verbatim>\<open>self._acks_pend.add(mid)\<close> in
  \<^verbatim>\<open>write\<close> and \<^verbatim>\<open>self._acks_pend.discard(mid)\<close> in \<^verbatim>\<open>_reader\<close>.
\<close>

datatype pend_op = Registered nat | AckRead nat

text \<open>
  Modelled from the spec: the byte set \<^verbatim>\<open>SetByte\<close> of \<^verbatim>\<open>__init__.py\<close>, not among the
  sources. \<^verbatim>\<open>add\<close> puts the identifier in the set; \<^verbatim>\<open>discard\<close> takes it out and does
  nothing when it is not there.
\<close>

fun pend_step :: "pend_op \<Rightarrow> client \<Rightarrow> client" where
  "pend_step (Registered m) c = c\<lparr>acks_pend := insert m (acks_pend c)\<rparr>"
| "pend_step (AckRead m) c = c\<lparr>acks_pend := acks_pend c - {m}\<rparr>"

lemma pend_history:
  "acks_pend c = {} \<Longrightarrow>
     m \<in> acks_pend (fold pend_step ops c)
       \<longleftrightarrow> (\<exists>pre post. ops = pre @ Registered m # post \<and> AckRead m \<notin> set post)"
proof (induction ops rule: rev_induct)
  case Nil
  then show ?case by simp
next
  case (snoc x xs)
  show ?case
  proof (cases x)
    case (Registered n)
    show ?thesis
    proof (cases "n = m")
      case True
      have "xs @ [Registered m] = xs @ Registered m # [] \<and> AckRead m \<notin> set []" by simp
      then have "\<exists>pre post. xs @ [Registered m] = pre @ Registered m # post \<and> AckRead m \<notin> set post"
        by blast
      with True Registered show ?thesis by simp
    next
      case False
      have "(\<exists>pre post. xs @ [Registered n] = pre @ Registered m # post \<and> AckRead m \<notin> set post)
        \<longleftrightarrow> (\<exists>pre post. xs = pre @ Registered m # post \<and> AckRead m \<notin> set post)"
      proof
        assume "\<exists>pre post. xs @ [Registered n] = pre @ Registered m # post \<and> AckRead m \<notin> set post"
        then obtain pre post where e: "xs @ [Registered n] = pre @ Registered m # post"
          and a: "AckRead m \<notin> set post" by blast
        from e False obtain post' where "post = post' @ [Registered n]"
          by (cases post rule: rev_cases) auto
        with e a have "xs = pre @ Registered m # post' \<and> AckRead m \<notin> set post'" by simp
        then show "\<exists>pre post. xs = pre @ Registered m # post \<and> AckRead m \<notin> set post" by blast
      next
        assume "\<exists>pre post. xs = pre @ Registered m # post \<and> AckRead m \<notin> set post"
        then obtain pre post where "xs = pre @ Registered m # post" "AckRead m \<notin> set post" by blast
        then have "xs @ [Registered n] = pre @ Registered m # (post @ [Registered n])
            \<and> AckRead m \<notin> set (post @ [Registered n])" by simp
        then show "\<exists>pre post. xs @ [Registered n] = pre @ Registered m # post \<and> AckRead m \<notin> set post"
          by blast
      qed
      with False Registered snoc show ?thesis by simp
    qed
  next
    case (AckRead n)
    have "(\<exists>pre post. xs @ [AckRead n] = pre @ Registered m # post \<and> AckRead m \<notin> set post)
        \<longleftrightarrow> (\<exists>pre post. xs = pre @ Registered m # post \<and> AckRead m \<notin> set post) \<and> n \<noteq> m"
    proof
      assume "\<exists>pre post. xs @ [AckRead n] = pre @ Registered m # post \<and> AckRead m \<notin> set post"
      then obtain pre post where e: "xs @ [AckRead n] = pre @ Registered m # post"
        and a: "AckRead m \<notin> set post" by blast
      from e obtain post' where p: "post = post' @ [AckRead n]"
        by (cases post rule: rev_cases) auto
      with e a have "xs = pre @ Registered m # post' \<and> AckRead m \<notin> set post' \<and> n \<noteq> m" by auto
      then show "(\<exists>pre post. xs = pre @ Registered m # post \<and> AckRead m \<notin> set post) \<and> n \<noteq> m"
        by blast
    next
      assume "(\<exists>pre post. xs = pre @ Registered m # post \<and> AckRead m \<notin> set post) \<and> n \<noteq> m"
      then obtain pre post where "xs = pre @ Registered m # post" "AckRead m \<notin> set post" "n \<noteq> m"
        by blast
      then have "xs @ [AckRead n] = pre @ Registered m # (post @ [AckRead n])
          \<and> AckRead m \<notin> set (post @ [AckRead n])" by simp
      then show "\<exists>pre post. xs @ [AckRead n] = pre @ Registered m # post \<and> AckRead m \<notin> set post"
        by blast
    qed
    with AckRead snoc show ?thesis by auto
  qed
qed


lemma app_write_blocked:
  "\<not> ok c \<Longrightarrow> sched w = [] \<Longrightarrow>
     app_write cf buf qos c w =
       Pending ((pend_step (Registered (getmid c)) c)\<lparr>getmid := snd (gmid_next (getmid c))\<rparr>) w"
  by (simp add: app_write_unfold)
    (subst priv_write.simps, simp add: wait_while_cut)

lemma reader_frame_ack:
  "length line = 3 \<Longrightarrow> int16 (take 2 line) = Some m \<Longrightarrow>
     reader_frame c0 line c w = Inr (pend_step (AckRead m) c, w)"
  by (simp add: reader_frame_def)

lemma discard_absent: "m \<notin> acks_pend c \<Longrightarrow> pend_step (AckRead m) c = c"
  by (cases c) simp

lemma reader_frame_keeps_pending:
  "length line \<noteq> 3 \<Longrightarrow> reader_frame c0 line c w = Inr (c1, w1) \<Longrightarrow> acks_pend c1 = acks_pend c"
  by (auto simp: reader_frame_def Let_def split: option.splits if_splits)

lemma app_write_keeps_pending:
  assumes "\<forall>f\<in>set (sched w). \<forall>x. m \<in> acks_pend x \<longrightarrow> m \<in> acks_pend (f x)"
    and "m \<in> acks_pend c \<or> m = getmid c"
  shows "m \<in> acks_pend (client_of (app_write cf buf qos c w))"
proof -
  let ?c1 = "c\<lparr>getmid := snd (gmid_next (getmid c)), acks_pend := insert (getmid c) (acks_pend c)\<rparr>"
  from app_write_props [of c w cf buf qos]
  have q: "quiet ?c1 w (client_of (app_write cf buf qos c w)) (world_of (app_write cf buf qos c w))"
    by blast
  from assms(1) have "keeps (\<lambda>x. m \<in> acks_pend x) w" by (simp add: keeps_def)
  moreover from assms(2) have "m \<in> acks_pend ?c1" by auto
  ultimately show ?thesis
    using quiet_keeps [OF q indifferent_pending] by blast
qed

text \<open>
  C6, as the code has it. \<^verbatim>\<open>write\<close> enters the identifier in the set before the line that
  carries it is transmitted, so that while the call still waits for the link the
  identifier is in the set and nothing has been sent; the writer never takes an
  identifier out. The reader removes an identifier exactly when it reads a 3-byte ACK
  line that decodes to it, and leaves the set alone on every other frame; an ACK for an
  identifier that is not in the set changes nothing. Hence, from the empty set onwards,
  an identifier is in the set if and only if a \<^verbatim>\<open>write\<close> has registered it and no ACK for
  it has been read since: registered (sent or still waiting to be sent) and not confirmed;
  absent when confirmed or never registered.
\<close>

theorem pending_set_invariant:
  "(\<not> ok c \<and> sched w = [] \<longrightarrow>
      app_write cf buf qos c w =
        Pending ((pend_step (Registered (getmid c)) c)\<lparr>getmid := snd (gmid_next (getmid c))\<rparr>) w)
   \<and> ((\<forall>f\<in>set (sched w). \<forall>x. m \<in> acks_pend x \<longrightarrow> m \<in> acks_pend (f x))
        \<and> (m \<in> acks_pend c \<or> m = getmid c) \<longrightarrow>
      m \<in> acks_pend (client_of (app_write cf buf qos c w)))
   \<and> (length line = 3 \<and> int16 (take 2 line) = Some m \<longrightarrow>
      reader_frame c0 line c w = Inr (pend_step (AckRead m) c, w)
      \<and> acks_pend (pend_step (AckRead m) c) = acks_pend c - {m}
      \<and> (m \<notin> acks_pend c \<longrightarrow> reader_frame c0 line c w = Inr (c, w)))
   \<and> (length line \<noteq> 3 \<and> reader_frame c0 line c w = Inr (c1, w1) \<longrightarrow> acks_pend c1 = acks_pend c)
   \<and> (acks_pend c = {} \<longrightarrow>
      (m \<in> acks_pend (fold pend_step ops c)
        \<longleftrightarrow> (\<exists>pre post. ops = pre @ Registered m # post \<and> AckRead m \<notin> set post)))"
proof (intro conjI impI)
  assume "\<not> ok c \<and> sched w = []"
  then show "app_write cf buf qos c w =
        Pending ((pend_step (Registered (getmid c)) c)\<lparr>getmid := snd (gmid_next (getmid c))\<rparr>) w"
    by (intro app_write_blocked) simp_all
next
  assume "(\<forall>f\<in>set (sched w). \<forall>x. m \<in> acks_pend x \<longrightarrow> m \<in> acks_pend (f x))
        \<and> (m \<in> acks_pend c \<or> m = getmid c)"
  then show "m \<in> acks_pend (client_of (app_write cf buf qos c w))"
    by (intro app_write_keeps_pending) simp_all
next
  assume a: "length line = 3 \<and> int16 (take 2 line) = Some m"
  then show r: "reader_frame c0 line c w = Inr (pend_step (AckRead m) c, w)"
    by (simp add: reader_frame_ack)
  show "acks_pend (pend_step (AckRead m) c) = acks_pend c - {m}" by simp
  assume "m \<notin> acks_pend c"
  then have "pend_step (AckRead m) c = c" by (rule discard_absent)
  with r show "reader_frame c0 line c w = Inr (c, w)"
    by (simp only:)
next
  assume "length line \<noteq> 3 \<and> reader_frame c0 line c w = Inr (c1, w1)"
  then show "acks_pend c1 = acks_pend c"
    by (auto dest: reader_frame_keeps_pending)
next
  assume "acks_pend c = {}"
  then show "m \<in> acks_pend (fold pend_step ops c)
        \<longleftrightarrow> (\<exists>pre post. ops = pre @ Registered m # post \<and> AckRead m \<notin> set post)"
    by (rule pend_history)
qed

text \<open>Two writes register 1 and 2, the ACK of 1 is read twice: 2 is pending, 1 is not.\<close>

theorem pending_set_invariant_witness:
  "acks_pend client0 = {}
   \<and> 2 \<in> acks_pend (fold pend_step [Registered 1, Registered 2, AckRead 1, AckRead 1] client0)
   \<and> 1 \<notin> acks_pend (fold pend_step [Registered 1, Registered 2, AckRead 1, AckRead 1] client0)
   \<and> reader_frame 0 ''01\<newline>'' (client0\<lparr>acks_pend := {1, 2}\<rparr>) world0
       = Inr (client0\<lparr>acks_pend := {2}\<rparr>, world0)
   \<and> reader_frame 0 ''01\<newline>'' (client0\<lparr>acks_pend := {2}\<rparr>) world0
       = Inr (client0\<lparr>acks_pend := {2}\<rparr>, world0)"
proof -
  let ?ops = "[Registered 1, Registered 2, AckRead 1, AckRead 1]"
  have e: "acks_pend client0 = {}" by (simp add: client0_def)
  note h = pending_set_invariant [THEN conjunct2, THEN conjunct2, THEN conjunct2, THEN conjunct2,
      THEN mp, OF e]
  have "?ops = [Registered 1] @ Registered 2 # [AckRead 1, AckRead 1]
      \<and> AckRead 2 \<notin> set [AckRead 1, AckRead 1]" by simp
  then have "\<exists>pre post. ?ops = pre @ Registered 2 # post \<and> AckRead 2 \<notin> set post" by blast
  with h [of 2 ?ops] have a: "2 \<in> acks_pend (fold pend_step ?ops client0)" by blast
  have b: "1 \<notin> acks_pend (fold pend_step ?ops client0)" by (simp add: client0_def)
  have l: "length ''01\<newline>'' = 3 \<and> int16 (take 2 ''01\<newline>'') = Some 1"
    by (simp add: int16_def hexval_def)
  note k = pending_set_invariant [THEN conjunct2, THEN conjunct2, THEN conjunct1, THEN mp, OF l]
  from k [of 0 "client0\<lparr>acks_pend := {1, 2}\<rparr>" world0]
  have c: "reader_frame 0 ''01\<newline>'' (client0\<lparr>acks_pend := {1, 2}\<rparr>) world0
       = Inr (client0\<lparr>acks_pend := {2}\<rparr>, world0)"
    by (simp add: client0_def)
  from k [of 0 "client0\<lparr>acks_pend := {2}\<rparr>" world0]
  have d: "reader_frame 0 ''01\<newline>'' (client0\<lparr>acks_pend := {2}\<rparr>) world0
       = Inr (client0\<lparr>acks_pend := {2}\<rparr>, world0)"
    by (simp add: client0_def)
  from e a b c d show ?thesis by (intro conjI)
qed

text \<open>
  The claim C6 says that an identifier in the set has always been sent. The link is
  down when \<^verbatim>\<open>write\<close> is called: the identifier 1 is in the set, the call waits for the
  link, and nothing has been put on the wire.
\<close>

theorem pending_unsent_counterexample:
  "app_write config0 ''ab'' True (client0\<lparr>ok := False\<rparr>) world0
     = Pending (client0\<lparr>ok := False, acks_pend := {1}, getmid := 2\<rparr>) world0
   \<and> 1 \<in> acks_pend (client0\<lparr>ok := False, acks_pend := {1}, getmid := 2\<rparr>)
   \<and> wire world0 = []"
  by (simp add: app_write_blocked client0_def world0_def gmid_next_def)

subsection \<open>The supervisor\<close>

text \<open>
  The application's side of the supervisor \<^verbatim>\<open>_run\<close>: the two coroutines \<^verbatim>\<open>bad_wifi\<close> and
  \<^verbatim>\<open>bad_server\<close>, which a subclass may override, and whether a connected-callback was
  given (\<^verbatim>\<open>self._concb is not None\<close>).
\<close>

record app =
  bad_wifi :: "client \<Rightarrow> world \<Rightarrow> unit outcome"
  bad_server :: "client \<Rightarrow> world \<Rightarrow> unit outcome"
  concb :: bool

text \<open>The body the class gives to both: \<^verbatim>\<open>await asyncio.sleep(0)\<close>, then \<^verbatim>\<open>raise OSError\<close>.\<close>

definition fatal :: "client \<Rightarrow> world \<Rightarrow> unit outcome" where
  "fatal c w =
     (case suspend 0 c w of
        None \<Rightarrow> Pending c w
      | Some (c1, w1) \<Rightarrow> Raised OSError c1 w1)"

text \<open>The number of times \<^verbatim>\<open>bad_server\<close> has been invoked.\<close>

definition alarms :: "world \<Rightarrow> nat" where
  "alarms w = count_list (calls w) BadServer"

text \<open>
  \<^verbatim>\<open>_connect\<close>. First \<^verbatim>\<open>while s.status() == network.STAT_CONNECTING\<close>, then the stability
  loop \<^verbatim>\<open>while s.isconnected() and utime.ticks_diff(utime.ticks_ms(), t) < 2 * self._to\<close>,
  where the clock is read only when the interface is connected. \<^verbatim>\<open>asyncio.sleep(1)\<close> is
  logged as 1000 ms.
\<close>

function connecting :: "client \<Rightarrow> world \<Rightarrow> unit outcome" where
  "connecting c w =
     (case stat w of
        [] \<Rightarrow> Pending c w
      | b # bs \<Rightarrow>
          if b then
            (case suspend 1000 c (w\<lparr>stat := bs\<rparr>) of
               None \<Rightarrow> Pending c (w\<lparr>stat := bs\<rparr>)
             | Some (c1, w1) \<Rightarrow> connecting c1 (w1\<lparr>calls := calls w1 @ [WdtFeed 5]\<rparr>))
          else Returned () c (w\<lparr>stat := bs\<rparr>))"
  by pat_completeness auto
termination
  by (relation "measure (\<lambda>(c, w). length (stat w))")
    (auto simp: suspend_def split: list.splits)

declare connecting.simps [simp del]

function stabilising :: "config \<Rightarrow> int \<Rightarrow> client \<Rightarrow> world \<Rightarrow> unit outcome" where
  "stabilising cf t c w =
     (case wifi w of
        [] \<Rightarrow> Pending c w
      | b # bs \<Rightarrow>
          if b then
            (case ticks_ms (w\<lparr>wifi := bs\<rparr>) of
               None \<Rightarrow> Pending c (w\<lparr>wifi := bs\<rparr>)
             | Some (t1, w1) \<Rightarrow>
                 if ticks_diff t1 t < 2 * to cf then
                   (case suspend 1000 c w1 of
                      None \<Rightarrow> Pending c w1
                    | Some (c2, w2) \<Rightarrow>
                        stabilising cf t c2 (w2\<lparr>calls := calls w2 @ [WdtFeed 5]\<rparr>))
                 else Returned () c w1)
          else Returned () c (w\<lparr>wifi := bs\<rparr>))"
  by pat_completeness auto
termination
  by (relation "measure (\<lambda>(cf, t, c, w). length (wifi w))")
    (auto simp: suspend_def ticks_ms_def split: list.splits)

declare stabilising.simps [simp del]

definition priv_connect :: "config \<Rightarrow> client \<Rightarrow> world \<Rightarrow> unit outcome" where
  "priv_connect cf c w =
     (case connecting c (w\<lparr>calls := calls w @ [StaConnect]\<rparr>) of
        Returned u c1 w1 \<Rightarrow>
          (case ticks_ms w1 of
             None \<Rightarrow> Pending c1 w1
           | Some (t, w2) \<Rightarrow> stabilising cf t c1 w2)
      | Raised e c1 w1 \<Rightarrow> Raised e c1 w1
      | Pending c1 w1 \<Rightarrow> Pending c1 w1)"

lemma connecting_wifi: "wifi (world_of (connecting c w)) = wifi w"
proof (induction c w rule: connecting.induct)
  case (1 c w)
  show ?case
  proof (cases "stat w")
    case Nil
    then show ?thesis by (subst connecting.simps) simp
  next
    case (Cons b bs)
    show ?thesis
    proof (cases b)
      case False
      with Cons show ?thesis by (subst connecting.simps) simp
    next
      case True
      show ?thesis
      proof (cases "suspend 1000 c (w\<lparr>stat := bs\<rparr>)")
        case None
        with Cons True show ?thesis by (subst connecting.simps) simp
      next
        case (Some p)
        obtain c1 w1 where p: "p = (c1, w1)" by (cases p)
        from Some p have s: "suspend 1000 c (w\<lparr>stat := bs\<rparr>) = Some (c1, w1)" by simp
        from suspend_fields [OF s] have "wifi w1 = wifi w" by simp
        with "1.IH" [OF Cons True s] Cons True s show ?thesis
          by (subst connecting.simps) simp
      qed
    qed
  qed
qed

lemma stabilising_wifi: "length (wifi (world_of (stabilising cf t c w))) \<le> length (wifi w)"
proof (induction cf t c w rule: stabilising.induct)
  case (1 cf t c w)
  show ?case
  proof (cases "wifi w")
    case Nil
    then show ?thesis by (subst stabilising.simps) simp
  next
    case (Cons b bs)
    show ?thesis
    proof (cases b)
      case False
      with Cons show ?thesis by (subst stabilising.simps) simp
    next
      case True
      show ?thesis
      proof (cases "ticks_ms (w\<lparr>wifi := bs\<rparr>)")
        case None
        with Cons True show ?thesis by (subst stabilising.simps) simp
      next
        case (Some p)
        obtain t1 w1 where p: "p = (t1, w1)" by (cases p)
        from Some p have tk: "ticks_ms (w\<lparr>wifi := bs\<rparr>) = Some (t1, w1)" by simp
        from ticks_ms_fields [OF tk] have w1: "wifi w1 = bs" by simp
        show ?thesis
        proof (cases "ticks_diff t1 t < 2 * to cf")
          case False
          with Cons True tk w1 show ?thesis by (subst stabilising.simps) simp
        next
          case lt: True
          show ?thesis
          proof (cases "suspend 1000 c w1")
            case None
            with Cons True tk w1 lt show ?thesis by (subst stabilising.simps) simp
          next
            case (Some q)
            obtain c2 w2 where q: "q = (c2, w2)" by (cases q)
            from Some q have s: "suspend 1000 c w1 = Some (c2, w2)" by simp
            from suspend_fields [OF s] w1 have "wifi w2 = bs" by simp
            with "1.IH" [OF Cons True tk refl lt s] Cons True tk lt s show ?thesis
              by (subst stabilising.simps) simp
          qed
        qed
      qed
    qed
  qed
qed

lemma priv_connect_wifi: "length (wifi (world_of (priv_connect cf c w))) \<le> length (wifi w)"
proof (cases "connecting c (w\<lparr>calls := calls w @ [StaConnect]\<rparr>)")
  case (Returned u c1 w1)
  from connecting_wifi [of c "w\<lparr>calls := calls w @ [StaConnect]\<rparr>"] Returned
  have w1: "wifi w1 = wifi w" by simp
  show ?thesis
  proof (cases "ticks_ms w1")
    case None
    with Returned w1 show ?thesis by (simp add: priv_connect_def)
  next
    case (Some p)
    obtain t w2 where p: "p = (t, w2)" by (cases p)
    from Some p have tk: "ticks_ms w1 = Some (t, w2)" by simp
    from ticks_ms_fields [OF tk] w1 have "wifi w2 = wifi w" by simp
    with stabilising_wifi [of cf t c1 w2] Returned tk show ?thesis
      by (simp add: priv_connect_def)
  qed
next
  case (Raised e c1 w1)
  with connecting_wifi [of c "w\<lparr>calls := calls w @ [StaConnect]\<rparr>"] show ?thesis
    by (simp add: priv_connect_def)
next
  case (Pending c1 w1)
  with connecting_wifi [of c "w\<lparr>calls := calls w @ [StaConnect]\<rparr>"] show ?thesis
    by (simp add: priv_connect_def)
qed

text \<open>\<^verbatim>\<open>while not s.isconnected(): await self._connect(s)\<close>\<close>

function ensure_wifi :: "config \<Rightarrow> client \<Rightarrow> world \<Rightarrow> unit outcome" where
  "ensure_wifi cf c w =
     (case wifi w of
        [] \<Rightarrow> Pending c w
      | b # bs \<Rightarrow>
          if b then Returned () c (w\<lparr>wifi := bs\<rparr>)
          else
            (case priv_connect cf c (w\<lparr>wifi := bs\<rparr>) of
               Returned u c1 w1 \<Rightarrow> ensure_wifi cf c1 w1
             | Raised e c1 w1 \<Rightarrow> Raised e c1 w1
             | Pending c1 w1 \<Rightarrow> Pending c1 w1))"
  by pat_completeness auto
termination
proof (relation "measure (\<lambda>(cf, c, w). length (wifi w))", goal_cases)
  case 1
  show ?case by simp
next
  case (2 cf c w b bs u c1 w1)
  from priv_connect_wifi [of cf c "w\<lparr>wifi := bs\<rparr>"] 2(3)
  have "length (wifi w1) \<le> length bs" by simp
  with 2(1) show ?case by simp
qed

declare ensure_wifi.simps [simp del]

text \<open>The last loop of the \<^verbatim>\<open>finally\<close> clause: \<^verbatim>\<open>while s.isconnected()\<close>.\<close>

function wait_disconnected :: "client \<Rightarrow> world \<Rightarrow> unit outcome" where
  "wait_disconnected c w =
     (case wifi w of
        [] \<Rightarrow> Pending c w
      | b # bs \<Rightarrow>
          if b then
            (case suspend 1000 c (w\<lparr>wifi := bs\<rparr>) of
               None \<Rightarrow> Pending c (w\<lparr>wifi := bs\<rparr>)
             | Some (c1, w1) \<Rightarrow> wait_disconnected c1 (w1\<lparr>calls := calls w1 @ [WdtFeed 5]\<rparr>))
          else Returned () c (w\<lparr>wifi := bs\<rparr>))"
  by pat_completeness auto
termination
  by (relation "measure (\<lambda>(c, w). length (wifi w))")
    (auto simp: suspend_def split: list.splits)

declare wait_disconnected.simps [simp del]

text \<open>
  The \<^verbatim>\<open>try\<close> block. \<open>dialled\<close> is the outcome of resolving the server and connecting the
  socket (\<^verbatim>\<open>socket.getaddrinfo\<close>, \<^verbatim>\<open>self._sock.connect\<close>): false when either raises
  \<^verbatim>\<open>OSError\<close>. Then the reader task is created and, after 50 ms, the identity line is
  sent without the lock.
\<close>

definition try_block :: "config \<Rightarrow> bool \<Rightarrow> client \<Rightarrow> world \<Rightarrow> unit outcome" where
  "try_block cf dialled c w =
     (if dialled then
        (let w1 = w\<lparr>calls := calls w @ [TaskReader]\<rparr> in
         case suspend 50 c w1 of
           None \<Rightarrow> Pending c w1
         | Some (c2, w2) \<Rightarrow> priv_send cf (my_id cf) c2 w2)
      else Raised OSError c w)"

text \<open>\<^verbatim>\<open>except OSError: if init: await self.bad_server()\<close>\<close>

definition handler :: "app \<Rightarrow> bool \<Rightarrow> client \<Rightarrow> world \<Rightarrow> unit outcome" where
  "handler a init c w =
     (if init then bad_server a c (w\<lparr>calls := calls w @ [BadServer]\<rparr>)
      else Returned () c w)"

text \<open>
  The \<^verbatim>\<open>else\<close> clause: the keepalive task, the callback, \<^verbatim>\<open>await self._evfail\<close> (an
  \<^verbatim>\<open>Event(100)\<close>, polled every 100 ms), then the link is marked down and both tasks are
  cancelled.
\<close>

definition else_block :: "app \<Rightarrow> client \<Rightarrow> world \<Rightarrow> unit outcome" where
  "else_block a c w =
     (let w1 = w\<lparr>calls := calls w @ TaskKeepalive # (if concb a then [Concb True] else [])\<rparr> in
      case wait_while (\<lambda>x. evfail x = None) 100 c w1 of
        Returned u c2 w2 \<Rightarrow>
          (let c3 = c2\<lparr>ok := False\<rparr>;
               w3 = w2\<lparr>calls := calls w2 @ [CancelReader, CancelKeepalive]\<rparr> in
           case suspend 0 c3 w3 of
             None \<Rightarrow> Pending c3 w3
           | Some (c4, w4) \<Rightarrow>
               Returned () c4
                 (w4\<lparr>calls := calls w4 @ WdtFeed 10 # (if concb a then [Concb False] else [])\<rparr>))
      | Raised e c2 w2 \<Rightarrow> Raised e c2 w2
      | Pending c2 w2 \<Rightarrow> Pending c2 w2)"

text \<open>The \<^verbatim>\<open>try\<close> statement without its \<^verbatim>\<open>finally\<close> clause.\<close>

definition guarded :: "app \<Rightarrow> config \<Rightarrow> bool \<Rightarrow> bool \<Rightarrow> client \<Rightarrow> world \<Rightarrow> unit outcome" where
  "guarded a cf init dialled c w =
     (case try_block cf dialled c w of
        Returned u c1 w1 \<Rightarrow> else_block a c1 w1
      | Raised e c1 w1 \<Rightarrow> if e = OSError then handler a init c1 w1 else Raised e c1 w1
      | Pending c1 w1 \<Rightarrow> Pending c1 w1)"

text \<open>The \<^verbatim>\<open>finally\<close> clause, after \<^verbatim>\<open>init = False\<close>.\<close>

definition finally_block :: "config \<Rightarrow> client \<Rightarrow> world \<Rightarrow> unit outcome" where
  "finally_block cf c w =
     (let w1 = w\<lparr>calls := calls w @ [SockClose, StaDisconnect, WdtFeed ((to cf * 4) div 1000)]\<rparr> in
      case suspend (to cf * 2) c w1 of
        None \<Rightarrow> Pending c w1
      | Some (c2, w2) \<Rightarrow> wait_disconnected c2 w2)"

text \<open>
  One pass of the loop \<^verbatim>\<open>while True\<close> of \<^verbatim>\<open>_run\<close>. A pass that is completed returns the value
  of the local variable \<^verbatim>\<open>init\<close> at its end, which the \<^verbatim>\<open>finally\<close> clause has set; an
  exception that leaves the \<^verbatim>\<open>try\<close> statement does so after the \<^verbatim>\<open>finally\<close> clause has run.
\<close>

definition attempt :: "app \<Rightarrow> config \<Rightarrow> bool \<Rightarrow> bool \<Rightarrow> client \<Rightarrow> world \<Rightarrow> bool outcome" where
  "attempt a cf init dialled c w =
     (case ensure_wifi cf c w of
        Returned u c1 w1 \<Rightarrow>
          (case guarded a cf init dialled (c1\<lparr>evfail := None\<rparr>)
                  (w1\<lparr>calls := calls w1 @ [SockNew]\<rparr>) of
             Returned u c3 w3 \<Rightarrow>
               (case finally_block cf c3 w3 of
                  Returned u c4 w4 \<Rightarrow> Returned False c4 w4
                | Raised e c4 w4 \<Rightarrow> Raised e c4 w4
                | Pending c4 w4 \<Rightarrow> Pending c4 w4)
           | Raised e c3 w3 \<Rightarrow>
               (case finally_block cf c3 w3 of
                  Returned u c4 w4 \<Rightarrow> Raised e c4 w4
                | Raised e4 c4 w4 \<Rightarrow> Raised e4 c4 w4
                | Pending c4 w4 \<Rightarrow> Pending c4 w4)
           | Pending c3 w3 \<Rightarrow> Pending c3 w3)
      | Raised e c1 w1 \<Rightarrow> Raised e c1 w1
      | Pending c1 w1 \<Rightarrow> Pending c1 w1)"

text \<open>
  The loop, run against the successive outcomes of dialling the server, one for each
  pass; it is cut off when they are used up.
\<close>

fun run_loop :: "app \<Rightarrow> config \<Rightarrow> bool list \<Rightarrow> bool \<Rightarrow> client \<Rightarrow> world \<Rightarrow> unit outcome" where
  "run_loop a cf [] init c w = Pending c w"
| "run_loop a cf (d # ds) init c w =
     (case attempt a cf init d c w of
        Returned init1 c1 w1 \<Rightarrow> run_loop a cf ds init1 c1 w1
      | Raised e c1 w1 \<Rightarrow> Raised e c1 w1
      | Pending c1 w1 \<Rightarrow> Pending c1 w1)"

text \<open>The four polls \<^verbatim>\<open>for _ in range(4)\<close>; the answer is whether the loop left by \<^verbatim>\<open>break\<close>.\<close>

fun wifi_poll :: "nat \<Rightarrow> client \<Rightarrow> world \<Rightarrow> bool outcome" where
  "wifi_poll 0 c w = Returned False c w"
| "wifi_poll (Suc n) c w =
     (case suspend 1000 c w of
        None \<Rightarrow> Pending c w
      | Some (c1, w1) \<Rightarrow>
          (case wifi w1 of
             [] \<Rightarrow> Pending c1 w1
           | b # bs \<Rightarrow>
               if b then Returned True c1 (w1\<lparr>wifi := bs\<rparr>)
               else wifi_poll n c1 (w1\<lparr>wifi := bs\<rparr>)))"

text \<open>\<^verbatim>\<open>_run\<close>, with \<^verbatim>\<open>init = True\<close> before the loop.\<close>

definition run :: "app \<Rightarrow> config \<Rightarrow> bool list \<Rightarrow> client \<Rightarrow> world \<Rightarrow> unit outcome" where
  "run a cf dials c w =
     (case suspend 1000 c w of
        None \<Rightarrow> Pending c w
      | Some (c1, w1) \<Rightarrow>
          (case wifi_poll 4 c1 (w1\<lparr>calls := calls w1 @ [StaConnect]\<rparr>) of
             Returned up c2 w2 \<Rightarrow>
               if up then run_loop a cf dials True c2 w2
               else
                 (case bad_wifi a c2 (w2\<lparr>calls := calls w2 @ [BadWifi]\<rparr>) of
                    Returned u c3 w3 \<Rightarrow> run_loop a cf dials True c3 w3
                  | Raised e c3 w3 \<Rightarrow> Raised e c3 w3
                  | Pending c3 w3 \<Rightarrow> Pending c3 w3)
           | Raised e c2 w2 \<Rightarrow> Raised e c2 w2
           | Pending c2 w2 \<Rightarrow> Pending c2 w2))"


subsection \<open>The hook for a server that cannot be reached\<close>

lemma alarms_calls: "calls w1 = calls w \<Longrightarrow> alarms w1 = alarms w"
  by (simp add: alarms_def)

lemma wait_while_calls: "calls (world_of (wait_while p ms c w)) = calls w"
  by (induction p ms c w rule: wait_while.induct)
    (subst wait_while.simps, auto simp: suspend_def split: list.splits)

lemma send_loop_calls: "calls (world_of (send_loop cf d ns nts start c w)) = calls w"
  by (induction cf d ns nts start c w rule: send_loop.induct)
    (subst send_loop.simps,
      auto simp: suspend_def ticks_ms_def Let_def split: list.splits send_res.splits if_splits)

lemma priv_send_calls: "calls (world_of (priv_send cf d c w)) = calls w"
  using send_loop_calls [of cf d 0 "nchars d" _ c]
  by (auto simp: priv_send_def ticks_ms_def split: list.splits)

lemma connecting_alarms: "alarms (world_of (connecting c w)) = alarms w"
  by (induction c w rule: connecting.induct)
    (subst connecting.simps, auto simp: suspend_def alarms_def split: list.splits)

lemma stabilising_alarms: "alarms (world_of (stabilising cf t c w)) = alarms w"
  by (induction cf t c w rule: stabilising.induct)
    (subst stabilising.simps,
      auto simp: suspend_def ticks_ms_def alarms_def split: list.splits)

lemma wait_disconnected_alarms: "alarms (world_of (wait_disconnected c w)) = alarms w"
  by (induction c w rule: wait_disconnected.induct)
    (subst wait_disconnected.simps, auto simp: suspend_def alarms_def split: list.splits)


lemma priv_connect_alarms: "alarms (world_of (priv_connect cf c w)) = alarms w"
proof (cases "connecting c (w\<lparr>calls := calls w @ [StaConnect]\<rparr>)")
  case (Returned u c1 w1)
  from connecting_alarms [of c "w\<lparr>calls := calls w @ [StaConnect]\<rparr>"] Returned
  have w1: "alarms w1 = alarms w" by (simp add: alarms_def)
  show ?thesis
  proof (cases "ticks_ms w1")
    case None
    with Returned w1 show ?thesis by (simp add: priv_connect_def)
  next
    case (Some p)
    obtain t w2 where p: "p = (t, w2)" by (cases p)
    from Some p have tk: "ticks_ms w1 = Some (t, w2)" by simp
    from ticks_ms_fields [OF tk] w1 have "alarms w2 = alarms w" by (simp add: alarms_def)
    with stabilising_alarms [of cf t c1 w2] Returned tk show ?thesis
      by (simp add: priv_connect_def)
  qed
next
  case (Raised e c1 w1)
  with connecting_alarms [of c "w\<lparr>calls := calls w @ [StaConnect]\<rparr>"] show ?thesis
    by (simp add: priv_connect_def alarms_def)
next
  case (Pending c1 w1)
  with connecting_alarms [of c "w\<lparr>calls := calls w @ [StaConnect]\<rparr>"] show ?thesis
    by (simp add: priv_connect_def alarms_def)
qed

lemma ensure_wifi_alarms: "alarms (world_of (ensure_wifi cf c w)) = alarms w"
proof (induction cf c w rule: ensure_wifi.induct)
  case (1 cf c w)
  show ?case
  proof (cases "wifi w")
    case Nil
    then show ?thesis by (subst ensure_wifi.simps) simp
  next
    case (Cons b bs)
    show ?thesis
    proof (cases b)
      case True
      with Cons show ?thesis by (subst ensure_wifi.simps) (simp add: alarms_def)
    next
      case False
      have a: "alarms (world_of (priv_connect cf c (w\<lparr>wifi := bs\<rparr>))) = alarms w"
        by (simp add: priv_connect_alarms) (simp add: alarms_def)
      show ?thesis
      proof (cases "priv_connect cf c (w\<lparr>wifi := bs\<rparr>)")
        case (Returned u c1 w1)
        with "1.IH" [OF Cons False Returned] a Cons False show ?thesis
          by (subst ensure_wifi.simps) simp
      next
        case (Raised e c1 w1)
        with a Cons False show ?thesis by (subst ensure_wifi.simps) simp
      next
        case (Pending c1 w1)
        with a Cons False show ?thesis by (subst ensure_wifi.simps) simp
      qed
    qed
  qed
qed

lemma try_block_alarms: "alarms (world_of (try_block cf d c w)) = alarms w"
proof (cases d)
  case False
  then show ?thesis by (simp add: try_block_def)
next
  case True
  show ?thesis
  proof (cases "suspend 50 c (w\<lparr>calls := calls w @ [TaskReader]\<rparr>)")
    case None
    with True show ?thesis by (simp add: try_block_def alarms_def)
  next
    case (Some p)
    obtain c2 w2 where p: "p = (c2, w2)" by (cases p)
    from Some p have s: "suspend 50 c (w\<lparr>calls := calls w @ [TaskReader]\<rparr>) = Some (c2, w2)"
      by simp
    from suspend_fields [OF s] have "alarms w2 = alarms w" by (simp add: alarms_def)
    with priv_send_calls [of cf "my_id cf" c2 w2] True s show ?thesis
      by (simp add: try_block_def alarms_def)
  qed
qed

lemma else_block_alarms: "alarms (world_of (else_block a c w)) = alarms w"
proof -
  let ?w1 = "w\<lparr>calls := calls w @ TaskKeepalive # (if concb a then [Concb True] else [])\<rparr>"
  have w1: "alarms ?w1 = alarms w" by (simp add: alarms_def)
  have ww: "alarms (world_of (wait_while (\<lambda>x. evfail x = None) 100 c ?w1)) = alarms w"
    using wait_while_calls [of "\<lambda>x. evfail x = None" 100 c ?w1] w1
    by (simp only: alarms_def)
  show ?thesis
  proof (cases "wait_while (\<lambda>x. evfail x = None) 100 c ?w1")
    case (Returned u c2 w2)
    with ww have w2: "alarms w2 = alarms w" by simp
    let ?w3 = "w2\<lparr>calls := calls w2 @ [CancelReader, CancelKeepalive]\<rparr>"
    from w2 have w3: "alarms ?w3 = alarms w" by (simp add: alarms_def)
    show ?thesis
    proof (cases "suspend 0 (c2\<lparr>ok := False\<rparr>) ?w3")
      case None
      with Returned w3 show ?thesis by (simp add: else_block_def Let_def)
    next
      case (Some p)
      obtain c4 w4 where p: "p = (c4, w4)" by (cases p)
      from Some p have s: "suspend 0 (c2\<lparr>ok := False\<rparr>) ?w3 = Some (c4, w4)" by simp
      from suspend_fields [OF s] w3 have "alarms w4 = alarms w" by (simp add: alarms_def)
      then have "alarms (w4\<lparr>calls := calls w4 @ WdtFeed 10 # (if concb a then [Concb False] else [])\<rparr>)
          = alarms w"
        by (simp add: alarms_def)
      with Returned s show ?thesis by (simp add: else_block_def Let_def)
    qed
  next
    case (Raised e c2 w2)
    with ww show ?thesis by (simp add: else_block_def Let_def)
  next
    case (Pending c2 w2)
    with ww show ?thesis by (simp add: else_block_def Let_def)
  qed
qed

lemma finally_block_alarms: "alarms (world_of (finally_block cf c w)) = alarms w"
proof -
  let ?w1 = "w\<lparr>calls := calls w @ [SockClose, StaDisconnect, WdtFeed ((to cf * 4) div 1000)]\<rparr>"
  have w1: "alarms ?w1 = alarms w" by (simp add: alarms_def)
  show ?thesis
  proof (cases "suspend (to cf * 2) c ?w1")
    case None
    with w1 show ?thesis by (simp add: finally_block_def Let_def)
  next
    case (Some p)
    obtain c2 w2 where p: "p = (c2, w2)" by (cases p)
    from Some p have s: "suspend (to cf * 2) c ?w1 = Some (c2, w2)" by simp
    from suspend_fields [OF s] w1 have "alarms w2 = alarms w" by (simp add: alarms_def)
    with wait_disconnected_alarms [of c2 w2] s show ?thesis
      by (simp add: finally_block_def Let_def)
  qed
qed

text \<open>With \<^verbatim>\<open>init\<close> false, or a \<^verbatim>\<open>try\<close> block that does not raise, the hook is not reached.\<close>

lemma guarded_silent:
  assumes "\<not> init \<or> (\<forall>c1 w1. try_block cf d c w \<noteq> Raised OSError c1 w1)"
  shows "guarded (a\<lparr>bad_server := h\<rparr>) cf init d c w = guarded a cf init d c w"
    and "alarms (world_of (guarded a cf init d c w)) = alarms w"
proof -
  note t = try_block_alarms [of cf d c w]
  show "guarded (a\<lparr>bad_server := h\<rparr>) cf init d c w = guarded a cf init d c w"
  proof (cases "try_block cf d c w")
    case (Returned u c1 w1)
    then show ?thesis by (simp add: guarded_def else_block_def)
  next
    case (Raised e c1 w1)
    with assms show ?thesis by (cases e) (auto simp: guarded_def handler_def)
  next
    case (Pending c1 w1)
    then show ?thesis by (simp add: guarded_def)
  qed
  show "alarms (world_of (guarded a cf init d c w)) = alarms w"
  proof (cases "try_block cf d c w")
    case (Returned u c1 w1)
    with t else_block_alarms [of a c1 w1] show ?thesis by (simp add: guarded_def)
  next
    case (Raised e c1 w1)
    with assms t show ?thesis by (cases e) (auto simp: guarded_def handler_def)
  next
    case (Pending c1 w1)
    with t show ?thesis by (simp add: guarded_def)
  qed
qed

lemma attempt_outcome:
  "attempt a cf init d c w =
     (case ensure_wifi cf c w of
        Returned u c1 w1 \<Rightarrow>
          (case guarded a cf init d (c1\<lparr>evfail := None\<rparr>) (w1\<lparr>calls := calls w1 @ [SockNew]\<rparr>) of
             Returned u c3 w3 \<Rightarrow>
               (case finally_block cf c3 w3 of
                  Returned u c4 w4 \<Rightarrow> Returned False c4 w4
                | Raised e c4 w4 \<Rightarrow> Raised e c4 w4
                | Pending c4 w4 \<Rightarrow> Pending c4 w4)
           | Raised e c3 w3 \<Rightarrow>
               (case finally_block cf c3 w3 of
                  Returned u c4 w4 \<Rightarrow> Raised e c4 w4
                | Raised e4 c4 w4 \<Rightarrow> Raised e4 c4 w4
                | Pending c4 w4 \<Rightarrow> Pending c4 w4)
           | Pending c3 w3 \<Rightarrow> Pending c3 w3)
      | Raised e c1 w1 \<Rightarrow> Raised e c1 w1
      | Pending c1 w1 \<Rightarrow> Pending c1 w1)"
  by (simp add: attempt_def)

lemma attempt_init: "attempt a cf init d c w = Returned init1 c1 w1 \<Longrightarrow> \<not> init1"
  by (auto simp: attempt_def split: outcome.splits)

lemma attempt_later:
  shows "attempt (a\<lparr>bad_server := h\<rparr>) cf False d c w = attempt a cf False d c w"
    and "alarms (world_of (attempt a cf False d c w)) = alarms w"
proof -
  show "attempt (a\<lparr>bad_server := h\<rparr>) cf False d c w = attempt a cf False d c w"
    by (cases "ensure_wifi cf c w") (simp_all add: attempt_def guarded_silent(1))
  note e = ensure_wifi_alarms [of cf c w]
  show "alarms (world_of (attempt a cf False d c w)) = alarms w"
  proof (cases "ensure_wifi cf c w")
    case (Returned u c1 w1)
    with e have w1: "alarms (w1\<lparr>calls := calls w1 @ [SockNew]\<rparr>) = alarms w"
      by (simp add: alarms_def)
    let ?g = "guarded a cf False d (c1\<lparr>evfail := None\<rparr>) (w1\<lparr>calls := calls w1 @ [SockNew]\<rparr>)"
    from guarded_silent(2) [where init = False and cf = cf and d = d and a = a
        and c = "c1\<lparr>evfail := None\<rparr>" and w = "w1\<lparr>calls := calls w1 @ [SockNew]\<rparr>"] w1
    have g: "alarms (world_of ?g) = alarms w" by simp
    show ?thesis
    proof (cases ?g)
      case g1: (Returned u3 c3 w3)
      with g finally_block_alarms [of cf c3 w3] Returned show ?thesis
        by (cases "finally_block cf c3 w3") (simp_all add: attempt_def)
    next
      case g1: (Raised e3 c3 w3)
      with g finally_block_alarms [of cf c3 w3] Returned show ?thesis
        by (cases "finally_block cf c3 w3") (simp_all add: attempt_def)
    next
      case g1: (Pending c3 w3)
      with g Returned show ?thesis by (simp add: attempt_def)
    qed
  next
    case (Raised e1 c1 w1)
    with e show ?thesis by (simp add: attempt_def)
  next
    case (Pending c1 w1)
    with e show ?thesis by (simp add: attempt_def)
  qed
qed

lemma run_loop_later:
  "run_loop (a\<lparr>bad_server := h\<rparr>) cf dials False c w = run_loop a cf dials False c w
   \<and> alarms (world_of (run_loop a cf dials False c w)) = alarms w"
proof (induction dials arbitrary: c w)
  case Nil
  show ?case by simp
next
  case (Cons d ds)
  note h = attempt_later(1) [where a = a and h = h and cf = cf and d = d and c = c and w = w]
  note k = attempt_later(2) [where a = a and cf = cf and d = d and c = c and w = w]
  show ?case
  proof (cases "attempt a cf False d c w")
    case (Returned i c1 w1)
    from attempt_init [OF Returned] have i: "i = False" by simp
    with Returned h k Cons.IH [of c1 w1] show ?thesis by simp
  next
    case (Raised e c1 w1)
    with h k show ?thesis by simp
  next
    case (Pending c1 w1)
    with h k show ?thesis by simp
  qed
qed


text \<open>Whether a block was left by \<^verbatim>\<open>OSError\<close>, the exception its \<^verbatim>\<open>except\<close> clause catches.\<close>

definition raised_oserror :: "unit outcome \<Rightarrow> bool" where
  "raised_oserror r = (case r of Raised e c w \<Rightarrow> e = OSError | _ \<Rightarrow> False)"

lemma guarded_caught:
  assumes "try_block cf d c w = Raised OSError c1 w1"
  shows "guarded a cf True d c w = bad_server a c1 (w1\<lparr>calls := calls w1 @ [BadServer]\<rparr>)"
    and "alarms (w1\<lparr>calls := calls w1 @ [BadServer]\<rparr>) = alarms w + 1"
    and "guarded a cf False d c w = Returned () c1 w1"
proof -
  from assms show "guarded a cf True d c w = bad_server a c1 (w1\<lparr>calls := calls w1 @ [BadServer]\<rparr>)"
    by (simp add: guarded_def handler_def)
  from try_block_alarms [of cf d c w] assms
  show "alarms (w1\<lparr>calls := calls w1 @ [BadServer]\<rparr>) = alarms w + 1"
    by (simp add: alarms_def)
  from assms show "guarded a cf False d c w = Returned () c1 w1"
    by (simp add: guarded_def handler_def)
qed

lemma guarded_bound:
  assumes "\<forall>x y. alarms (world_of (bad_server a x y)) = alarms y"
  shows "alarms (world_of (guarded a cf init d c w)) \<le> alarms w + 1"
proof (cases "init \<and> raised_oserror (try_block cf d c w)")
  case False
  then have "\<not> init \<or> (\<forall>c1 w1. try_block cf d c w \<noteq> Raised OSError c1 w1)"
    by (auto simp: raised_oserror_def)
  from guarded_silent(2) [OF this] show ?thesis by simp
next
  case True
  then obtain c1 w1 where t: "try_block cf d c w = Raised OSError c1 w1"
    by (auto simp: raised_oserror_def split: outcome.splits)
  from True guarded_caught(1,2) [OF t] assms show ?thesis by simp
qed

lemma attempt_bound:
  assumes "\<forall>x y. alarms (world_of (bad_server a x y)) = alarms y"
  shows "alarms (world_of (attempt a cf init d c w)) \<le> alarms w + 1"
proof -
  note e = ensure_wifi_alarms [of cf c w]
  show ?thesis
  proof (cases "ensure_wifi cf c w")
    case (Returned u c1 w1)
    with e have w1: "alarms (w1\<lparr>calls := calls w1 @ [SockNew]\<rparr>) = alarms w"
      by (simp add: alarms_def)
    let ?g = "guarded a cf init d (c1\<lparr>evfail := None\<rparr>) (w1\<lparr>calls := calls w1 @ [SockNew]\<rparr>)"
    from guarded_bound [OF assms, where cf = cf and init = init and d = d
        and c = "c1\<lparr>evfail := None\<rparr>" and w = "w1\<lparr>calls := calls w1 @ [SockNew]\<rparr>"] w1
    have g: "alarms (world_of ?g) \<le> alarms w + 1" by simp
    show ?thesis
    proof (cases ?g)
      case g1: (Returned u3 c3 w3)
      with g finally_block_alarms [of cf c3 w3] Returned show ?thesis
        by (cases "finally_block cf c3 w3") (simp_all add: attempt_def)
    next
      case g1: (Raised e3 c3 w3)
      with g finally_block_alarms [of cf c3 w3] Returned show ?thesis
        by (cases "finally_block cf c3 w3") (simp_all add: attempt_def)
    next
      case g1: (Pending c3 w3)
      with g Returned show ?thesis by (simp add: attempt_def)
    qed
  next
    case (Raised e1 c1 w1)
    with e show ?thesis by (simp add: attempt_def)
  next
    case (Pending c1 w1)
    with e show ?thesis by (simp add: attempt_def)
  qed
qed

lemma run_loop_bound:
  assumes "\<forall>x y. alarms (world_of (bad_server a x y)) = alarms y"
  shows "alarms (world_of (run_loop a cf dials init c w)) \<le> alarms w + 1"
proof (cases dials)
  case Nil
  then show ?thesis by simp
next
  case (Cons d ds)
  note b = attempt_bound [OF assms, where cf = cf and init = init and d = d and c = c and w = w]
  show ?thesis
  proof (cases "attempt a cf init d c w")
    case (Returned i c1 w1)
    from attempt_init [OF Returned] have i: "i = False" by simp
    from run_loop_later [where a = a and h = "bad_server a" and cf = cf and dials = ds and c = c1 and w = w1]
    have "alarms (world_of (run_loop a cf ds False c1 w1)) = alarms w1" by simp
    with Returned i b Cons show ?thesis by simp
  next
    case (Raised e c1 w1)
    with b Cons show ?thesis by simp
  next
    case (Pending c1 w1)
    with b Cons show ?thesis by simp
  qed
qed

text \<open>
  C9. Once a pass of the loop has been completed \<^verbatim>\<open>init\<close> is false. With \<^verbatim>\<open>init\<close> false the
  supervisor does not depend on what \<^verbatim>\<open>bad_server\<close> is and never invokes it, whatever the
  dialling, the socket and the other tasks do on the later attempts: an \<^verbatim>\<open>OSError\<close> of the
  \<^verbatim>\<open>try\<close> block is then caught and nothing else is done. On the first attempt the hook is
  not reached unless the \<^verbatim>\<open>try\<close> block (connecting the socket, sending the identity line)
  raises \<^verbatim>\<open>OSError\<close>, and when it does the hook is invoked once, on the state the block
  left. Hence, with a hook that does not invoke itself, \<^verbatim>\<open>bad_server\<close> is invoked at most
  once in the whole life of the supervisor.
\<close>

theorem bad_server_first_attempt_only:
  "(attempt a cf init d c w = Returned init1 c1 w1 \<longrightarrow> \<not> init1)
   \<and> run_loop (a\<lparr>bad_server := h\<rparr>) cf dials False c w = run_loop a cf dials False c w
   \<and> alarms (world_of (run_loop a cf dials False c w)) = alarms w
   \<and> (\<not> raised_oserror (try_block cf d c w) \<longrightarrow>
        guarded (a\<lparr>bad_server := h\<rparr>) cf True d c w = guarded a cf True d c w
        \<and> alarms (world_of (guarded a cf True d c w)) = alarms w)
   \<and> (try_block cf d c w = Raised OSError c1 w1 \<longrightarrow>
        guarded a cf True d c w = bad_server a c1 (w1\<lparr>calls := calls w1 @ [BadServer]\<rparr>)
        \<and> alarms (w1\<lparr>calls := calls w1 @ [BadServer]\<rparr>) = alarms w + 1
        \<and> guarded a cf False d c w = Returned () c1 w1)
   \<and> ((\<forall>x y. alarms (world_of (bad_server a x y)) = alarms y) \<longrightarrow>
        alarms (world_of (run_loop a cf dials init c w)) \<le> alarms w + 1)"
proof (intro conjI impI)
  assume "attempt a cf init d c w = Returned init1 c1 w1"
  then show "\<not> init1" by (rule attempt_init)
next
  show "run_loop (a\<lparr>bad_server := h\<rparr>) cf dials False c w = run_loop a cf dials False c w"
    by (simp add: run_loop_later)
  show "alarms (world_of (run_loop a cf dials False c w)) = alarms w"
    using run_loop_later [where a = a and h = "bad_server a" and cf = cf and dials = dials and c = c and w = w] by simp
next
  assume "\<not> raised_oserror (try_block cf d c w)"
  then have n: "\<not> True \<or> (\<forall>c1 w1. try_block cf d c w \<noteq> Raised OSError c1 w1)"
    by (auto simp: raised_oserror_def)
  from guarded_silent(1) [OF n]
  show "guarded (a\<lparr>bad_server := h\<rparr>) cf True d c w = guarded a cf True d c w" .
  from guarded_silent(2) [OF n]
  show "alarms (world_of (guarded a cf True d c w)) = alarms w" .
next
  assume t: "try_block cf d c w = Raised OSError c1 w1"
  from guarded_caught(1) [OF t]
  show "guarded a cf True d c w = bad_server a c1 (w1\<lparr>calls := calls w1 @ [BadServer]\<rparr>)" .
  from guarded_caught(2) [OF t]
  show "alarms (w1\<lparr>calls := calls w1 @ [BadServer]\<rparr>) = alarms w + 1" .
  from guarded_caught(3) [OF t]
  show "guarded a cf False d c w = Returned () c1 w1" .
next
  assume "\<forall>x y. alarms (world_of (bad_server a x y)) = alarms y"
  then show "alarms (world_of (run_loop a cf dials init c w)) \<le> alarms w + 1"
    by (rule run_loop_bound)
qed


text \<open>
  An application whose \<^verbatim>\<open>bad_server\<close> returns, and a server that refuses the connection
  twice: the interface is up at the head of both passes and down after the cooldown.
\<close>

definition resume :: "client \<Rightarrow> world \<Rightarrow> unit outcome" where
  "resume c w = Returned () c w"

definition app1 :: app where
  "app1 = \<lparr>bad_wifi = fatal, bad_server = resume, concb = False\<rparr>"

definition world1 :: world where
  "world1 = world0\<lparr>wifi := [True, False, True, False], sched := [idle, idle]\<rparr>"

lemma refused_run:
  "run_loop app1 config0 [False, False] True client0 world1 =
     Pending client0
       (world0\<lparr>slept := [8000, 8000],
          calls := [SockNew, BadServer, SockClose, StaDisconnect, WdtFeed 16,
                    SockNew, SockClose, StaDisconnect, WdtFeed 16]\<rparr>)"
  by (simp add: attempt_def ensure_wifi.simps guarded_def try_block_def handler_def
      finally_block_def wait_disconnected.simps suspend_def world1_def world0_def client0_def
      config0_def app1_def resume_def idle_def)


theorem bad_server_first_attempt_only_witness:
  "try_block config0 False client0 world0 = Raised OSError client0 world0
   \<and> guarded app1 config0 True False client0 world0
       = Returned () client0 (world0\<lparr>calls := [BadServer]\<rparr>)
   \<and> guarded app1 config0 False False client0 world0 = Returned () client0 world0
   \<and> (\<forall>x y. alarms (world_of (bad_server app1 x y)) = alarms y)
   \<and> alarms (world_of (run_loop app1 config0 [False, False] True client0 world1)) \<le> 1
   \<and> calls (world_of (run_loop app1 config0 [False, False] True client0 world1))
       = [SockNew, BadServer, SockClose, StaDisconnect, WdtFeed 16,
          SockNew, SockClose, StaDisconnect, WdtFeed 16]"
proof -
  have t: "try_block config0 False client0 world0 = Raised OSError client0 world0"
    by (simp add: try_block_def)
  note g = bad_server_first_attempt_only [THEN c2, THEN c2, THEN c2, THEN c2, THEN conjunct1,
      THEN mp, OF t]
  from g [THEN conjunct1, of app1]
  have g1: "guarded app1 config0 True False client0 world0
      = Returned () client0 (world0\<lparr>calls := [BadServer]\<rparr>)"
    by (simp add: app1_def resume_def world0_def)
  from g [THEN c2, THEN c2, of app1]
  have g2: "guarded app1 config0 False False client0 world0 = Returned () client0 world0" .
  have s: "\<forall>x y. alarms (world_of (bad_server app1 x y)) = alarms y"
    by (simp add: app1_def resume_def)
  have "alarms world1 = 0" by (simp add: alarms_def world1_def world0_def)
  with bad_server_first_attempt_only [where a = app1 and cf = config0 and dials = "[False, False]"
        and init = True and c = client0 and w = world1,
      THEN c2, THEN c2, THEN c2, THEN c2, THEN c2, THEN mp, OF s]
  have b: "alarms (world_of (run_loop app1 config0 [False, False] True client0 world1)) \<le> 1"
    by simp
  have r: "calls (world_of (run_loop app1 config0 [False, False] True client0 world1))
       = [SockNew, BadServer, SockClose, StaDisconnect, WdtFeed 16,
          SockNew, SockClose, StaDisconnect, WdtFeed 16]"
    by (simp only: refused_run) simp
  from t g1 g2 s b r show ?thesis by (intro conjI)
qed


text \<open>
  The class as it is, both hooks raising: the interface answers the first poll, the
  server refuses the first connection, and \<^verbatim>\<open>_run\<close> ends with the \<^verbatim>\<open>OSError\<close> of
  \<^verbatim>\<open>bad_server\<close> once the \<^verbatim>\<open>finally\<close> clause has run.
\<close>

definition app0 :: app where
  "app0 = \<lparr>bad_wifi = fatal, bad_server = fatal, concb = False\<rparr>"

lemma default_hook_fatal:
  "run app0 config0 [False] client0
     (world0\<lparr>wifi := [True, True, False], sched := [idle, idle, idle, idle]\<rparr>) =
   Raised OSError client0
     (world0\<lparr>slept := [1000, 1000, 0, 8000],
        calls := [StaConnect, SockNew, BadServer, SockClose, StaDisconnect, WdtFeed 16]\<rparr>)"
  by (simp add: run_def numeral_nat attempt_def ensure_wifi.simps guarded_def try_block_def
      handler_def finally_block_def wait_disconnected.simps suspend_def world0_def client0_def
      config0_def app0_def fatal_def idle_def)

end
